theory Spec2Isabelle
  imports Main "HOL-Library.Multiset"
begin

section \<open>The sorting library \<open>sort.hpp\<close> (namespace \<open>futil\<close>)\<close>

text \<open>
  The library sorts a range \<open>[first, last)\<close> of an underlying sequence in place.
  The underlying sequence is a list \<open>mem\<close>; an iterator into it is an index
  (\<open>nat\<close>), so \<open>*j\<close> is \<open>mem ! j\<close>, \<open>std::prev(j)\<close> is \<open>j - 1\<close> and
  \<open>last - first\<close> is the subtraction of the two indices. Each function takes the
  sequence and returns it updated. The comparator \<open>comp\<close> is a function \<open>cmp\<close>, and
  \<open>last\<close> is written \<open>last'\<close>. The auxiliary buffer of \<open>merge_sort\<close> is a
  second list, storage of its own, whose index \<open>0\<close> is the iterator \<open>aux\<close>.

  Reads and writes outside a list are undefined behaviour in the source; every
  theorem below is stated for a valid range (\<open>first \<le> last \<le> length mem\<close>) and a
  buffer that is long enough, where all indices used are in range.

  Distances (\<open>difference_type\<close>) are \<open>nat\<close>: every distance the code computes on
  a valid range is between \<open>0\<close> and twice the length of the sequence, so the signed
  machine integer neither overflows nor goes negative, and its truncating division is
  \<open>div\<close>.
\<close>

type_synonym 'a BinOp = "'a \<Rightarrow> 'a \<Rightarrow> bool"

subsection \<open>Insertion sort\<close>

text \<open>\<open>std::iter_swap(j, k)\<close>: exchanges \<open>*j\<close> and \<open>*k\<close>.\<close>

definition iter_swap :: "nat \<Rightarrow> nat \<Rightarrow> 'a list \<Rightarrow> 'a list" where
  "iter_swap j k mem = mem[j := mem ! k, k := mem ! j]"

text \<open>
  The inner loop of \<open>insertion_sort\<close>:
  \<^verbatim>\<open>for (j = i; j != first; --j) { k = std::prev(j); if (!comp(*j, *k)) { break; } std::iter_swap(j, k); }\<close>
  The loop starts at \<open>j = i\<close> with \<open>first \<le> i\<close> and steps down by one, so its guard
  \<open>j != first\<close> is \<open>first < j\<close>.
\<close>

function insertion_inner :: "nat \<Rightarrow> 'a BinOp \<Rightarrow> nat \<Rightarrow> 'a list \<Rightarrow> 'a list" where
  "insertion_inner first cmp j mem =
     (if first < j then
        (let k = j - 1 in
         if \<not> cmp (mem ! j) (mem ! k) then mem
         else insertion_inner first cmp (j - 1) (iter_swap j k mem))
      else mem)"
  by pat_completeness auto
termination
  by (relation "measure (\<lambda>(first, cmp, j, mem). j)") auto

declare insertion_inner.simps [simp del]

text \<open>The outer loop: \<^verbatim>\<open>for (i = first; i != last; ++i)\<close>, entered with \<open>i \<le> last\<close>.\<close>

function insertion_outer :: "nat \<Rightarrow> nat \<Rightarrow> 'a BinOp \<Rightarrow> nat \<Rightarrow> 'a list \<Rightarrow> 'a list" where
  "insertion_outer first last' cmp i mem =
     (if i < last' then insertion_outer first last' cmp (Suc i) (insertion_inner first cmp i mem)
      else mem)"
  by pat_completeness auto
termination
  by (relation "measure (\<lambda>(first, last', cmp, i, mem). last' - i)") auto

declare insertion_outer.simps [simp del]

definition insertion_sort :: "nat \<Rightarrow> nat \<Rightarrow> 'a BinOp \<Rightarrow> 'a list \<Rightarrow> 'a list" where
  "insertion_sort first last' cmp mem = insertion_outer first last' cmp first mem"

subsection \<open>Knuth's sequence\<close>

text \<open>
  \<^verbatim>\<open>N k{1}; while (k < n/3) { k = 3*k + 1; } return k;\<close>
  \<open>shell_sort\<close> calls it with \<open>n = last - first \<ge> 0\<close>, where the truncating
  division of C++ is \<open>div\<close>; under the guard \<open>3*k + 1 \<le> n\<close>, so nothing overflows.
\<close>

function knuth_loop :: "nat \<Rightarrow> nat \<Rightarrow> nat" where
  "knuth_loop n k = (if k < n div 3 then knuth_loop n (3 * k + 1) else k)"
  by pat_completeness auto
termination
  by (relation "measure (\<lambda>(n, k). n div 3 - k)") auto

declare knuth_loop.simps [simp del]

definition knuth_seq :: "nat \<Rightarrow> nat" where
  "knuth_seq n = knuth_loop n 1"

text \<open>
  The sequence the documentation speaks of, in the words of the specification:
  \<open>k\<^sub>0 = 1\<close>, \<open>k\<^sub>i\<^sub>+\<^sub>1 = 3 k\<^sub>i + 1\<close> (1, 4, 13, 40, 121, ...).
\<close>

fun knuth_term :: "nat \<Rightarrow> nat" where
  "knuth_term 0 = 1"
| "knuth_term (Suc i) = 3 * knuth_term i + 1"

subsection \<open>Interleaved insertion sort and Shell sort\<close>

text \<open>
  The inner loop of \<open>h_sort\<close>:
  \<^verbatim>\<open>for (j = i; j - first >= h; j -= h) { k = j - h; if (comp(*j, *k)) { std::iter_swap(j, k); } }\<close>
  The source requires \<open>h > 0\<close> (with \<open>h = 0\<close> the loop never ends); the model
  returns at once for \<open>h = 0\<close>, and \<open>shell_sort\<close> never passes it.
\<close>

function h_inner :: "nat \<Rightarrow> nat \<Rightarrow> 'a BinOp \<Rightarrow> nat \<Rightarrow> 'a list \<Rightarrow> 'a list" where
  "h_inner first h cmp j mem =
     (if 0 < h \<and> h \<le> j - first then
        (let k = j - h in
         h_inner first h cmp (j - h) (if cmp (mem ! j) (mem ! k) then iter_swap j k mem else mem))
      else mem)"
  by pat_completeness auto
termination
  by (relation "measure (\<lambda>(first, h, cmp, j, mem). j)") auto

declare h_inner.simps [simp del]

text \<open>The outer loop: \<^verbatim>\<open>for (i = first + h; i < last; ++i)\<close>.\<close>

function h_outer :: "nat \<Rightarrow> nat \<Rightarrow> nat \<Rightarrow> 'a BinOp \<Rightarrow> nat \<Rightarrow> 'a list \<Rightarrow> 'a list" where
  "h_outer first last' h cmp i mem =
     (if i < last' then h_outer first last' h cmp (Suc i) (h_inner first h cmp i mem)
      else mem)"
  by pat_completeness auto
termination
  by (relation "measure (\<lambda>(first, last', h, cmp, i, mem). last' - i)") auto

declare h_outer.simps [simp del]

definition h_sort :: "nat \<Rightarrow> nat \<Rightarrow> nat \<Rightarrow> 'a BinOp \<Rightarrow> 'a list \<Rightarrow> 'a list" where
  "h_sort first last' h cmp mem = h_outer first last' h cmp (first + h) mem"

text \<open>
  \<^verbatim>\<open>for (auto h = knuth_seq(last - first); h > 0; h /= 3) { h_sort(first, last, h, comp); }\<close>
\<close>

function shell_loop :: "nat \<Rightarrow> nat \<Rightarrow> 'a BinOp \<Rightarrow> nat \<Rightarrow> 'a list \<Rightarrow> 'a list" where
  "shell_loop first last' cmp h mem =
     (if 0 < h then shell_loop first last' cmp (h div 3) (h_sort first last' h cmp mem)
      else mem)"
  by pat_completeness auto
termination
  by (relation "measure (\<lambda>(first, last', cmp, h, mem). h)") auto

declare shell_loop.simps [simp del]

definition shell_sort :: "nat \<Rightarrow> nat \<Rightarrow> 'a BinOp \<Rightarrow> 'a list \<Rightarrow> 'a list" where
  "shell_sort first last' cmp mem = shell_loop first last' cmp (knuth_seq (last' - first)) mem"

subsection \<open>Bottom-up merge sort\<close>

text \<open>The elements of the range \<open>[lo, hi)\<close>, in order.\<close>

definition range_of :: "nat \<Rightarrow> nat \<Rightarrow> 'a list \<Rightarrow> 'a list" where
  "range_of lo hi mem = take (hi - lo) (drop lo mem)"

text \<open>
  Writing the values \<open>vs\<close> to consecutive positions from \<open>off\<close> on, as an output
  iterator does (\<open>*out++ = v\<close>); the positions exist when
  \<open>off + length vs \<le> length buf\<close>.
\<close>

definition write_at :: "nat \<Rightarrow> 'a list \<Rightarrow> 'a list \<Rightarrow> 'a list" where
  "write_at off vs buf = take off buf @ vs @ drop (off + length vs) buf"

text \<open>
  \<open>std::merge\<close> of the C++ standard library, on the two input ranges as lists: while
  both ranges have elements it emits the head of the second when
  \<open>comp(*first2, *first1)\<close> and the head of the first otherwise, then the rest of
  the range that is left.
\<close>

fun std_merge :: "'a BinOp \<Rightarrow> 'a list \<Rightarrow> 'a list \<Rightarrow> 'a list" where
  "std_merge cmp [] ys = ys"
| "std_merge cmp (x # xs) [] = x # xs"
| "std_merge cmp (x # xs) (y # ys) =
     (if cmp y x then y # std_merge cmp (x # xs) ys
      else x # std_merge cmp xs (y # ys))"

text \<open>\<open>std::copy(aux, aux + dim, first)\<close>.\<close>

definition std_copy :: "'a list \<Rightarrow> nat \<Rightarrow> nat \<Rightarrow> 'a list \<Rightarrow> 'a list" where
  "std_copy aux dim first mem = write_at first (take dim aux) mem"

definition cutoff :: nat where
  "cutoff = 16"

text \<open>
  The first loop of \<open>merge_sort\<close>:
  \<^verbatim>\<open>for (lo = first; lo < last; lo += cutoff) { hi = lo + cutoff; if (last < hi) { hi = last; } futil::insertion_sort(lo, hi, comp); }\<close>
\<close>

function cutoff_loop :: "nat \<Rightarrow> 'a BinOp \<Rightarrow> nat \<Rightarrow> 'a list \<Rightarrow> 'a list" where
  "cutoff_loop last' cmp lo mem =
     (if lo < last' then
        (let hi = lo + cutoff;
             hi = (if last' < hi then last' else hi)
         in cutoff_loop last' cmp (lo + cutoff) (insertion_sort lo hi cmp mem))
      else mem)"
  by pat_completeness auto
termination
  by (relation "measure (\<lambda>(last', cmp, lo, mem). last' - lo)") (auto simp: cutoff_def)

declare cutoff_loop.simps [simp del]

text \<open>
  The inner loop of the merge passes; it reads the range and writes the buffer:
  \<^verbatim>\<open>for (lo = first; lo < last - sz; lo += 2*sz) { mid = lo + sz; hi = lo + 2*sz; if (last < hi) { hi = last; } std::merge(lo, mid, mid, hi, aux + (lo - first), comp); }\<close>
  It is run with \<open>0 < sz < last - first\<close> only (\<open>sz\<close> starts at the cutoff and is
  doubled); the model returns at once for \<open>sz = 0\<close>, where the source would not
  advance.
\<close>

function merge_pass :: "nat \<Rightarrow> nat \<Rightarrow> 'a BinOp \<Rightarrow> nat \<Rightarrow> nat \<Rightarrow> 'a list \<Rightarrow> 'a list \<Rightarrow> 'a list" where
  "merge_pass first last' cmp sz lo mem aux =
     (if 0 < sz \<and> lo < last' - sz then
        (let mid = lo + sz;
             hi = lo + 2 * sz;
             hi = (if last' < hi then last' else hi)
         in merge_pass first last' cmp sz (lo + 2 * sz) mem
              (write_at (lo - first) (std_merge cmp (range_of lo mid mem) (range_of mid hi mem)) aux))
      else aux)"
  by pat_completeness auto
termination
  by (relation "measure (\<lambda>(first, last', cmp, sz, lo, mem, aux). last' - sz - lo)") auto

declare merge_pass.simps [simp del]

text \<open>
  The outer loop of the merge passes:
  \<^verbatim>\<open>for (Diff sz = cutoff; sz < dim; sz *= 2) { <inner loop> std::copy(aux, aux + dim, first); }\<close>
\<close>

function merge_passes :: "nat \<Rightarrow> nat \<Rightarrow> 'a BinOp \<Rightarrow> nat \<Rightarrow> 'a list \<times> 'a list \<Rightarrow> 'a list \<times> 'a list" where
  "merge_passes first last' cmp sz (mem, aux) =
     (let dim = last' - first in
      if 0 < sz \<and> sz < dim then
        (let aux' = merge_pass first last' cmp sz first mem aux
         in merge_passes first last' cmp (2 * sz) (std_copy aux' dim first mem, aux'))
      else (mem, aux))"
  by pat_completeness auto
termination
  by (relation "measure (\<lambda>(first, last', cmp, sz, s). last' - first - sz)") auto

declare merge_passes.simps [simp del]

text \<open>
  \<open>merge_sort(first, last, aux, comp)\<close>: the result is the pair of the sequence and
  the buffer after the call.
\<close>

definition merge_sort :: "nat \<Rightarrow> nat \<Rightarrow> 'a list \<Rightarrow> 'a BinOp \<Rightarrow> 'a list \<Rightarrow> 'a list \<times> 'a list" where
  "merge_sort first last' aux cmp mem =
     merge_passes first last' cmp cutoff (cutoff_loop last' cmp first mem, aux)"

subsection \<open>The comparator contract and the properties of a sorted range\<close>

text \<open>
  A valid comparator is a strict weak ordering: irreflexive, transitive, and with a
  transitive equivalence (\<open>a\<close> and \<open>b\<close> are equivalent when neither precedes the
  other).
\<close>

definition strict_weak_order :: "'a BinOp \<Rightarrow> bool" where
  "strict_weak_order cmp \<longleftrightarrow>
     (\<forall>x. \<not> cmp x x) \<and>
     (\<forall>x y z. cmp x y \<and> cmp y z \<longrightarrow> cmp x z) \<and>
     (\<forall>x y z. \<not> cmp x y \<and> \<not> cmp y x \<and> \<not> cmp y z \<and> \<not> cmp z y \<longrightarrow> \<not> cmp x z \<and> \<not> cmp z x)"

text \<open>Non-decreasing under \<open>cmp\<close>: no element precedes an earlier one.\<close>

definition non_decreasing :: "'a BinOp \<Rightarrow> 'a list \<Rightarrow> bool" where
  "non_decreasing cmp xs = sorted_wrt (\<lambda>a b. \<not> cmp b a) xs"

subsection \<open>Notions used in the proofs\<close>

text \<open>
  A range is \<open>h\<close>-ordered when no element precedes the one \<open>h\<close> places before it;
  for \<open>h = 1\<close> and a valid comparator that is a non-decreasing range.
\<close>

definition h_ordered :: "nat \<Rightarrow> nat \<Rightarrow> nat \<Rightarrow> 'a BinOp \<Rightarrow> 'a list \<Rightarrow> bool" where
  "h_ordered first last' h cmp mem \<longleftrightarrow>
     (\<forall>p. first + h \<le> p \<and> p < last' \<longrightarrow> \<not> cmp (mem ! p) (mem ! (p - h)))"

text \<open>
  \<open>mem'\<close> is \<open>mem\<close> with the elements of \<open>[first, last)\<close> permuted and nothing else
  changed; the weaker \<open>unchanged_outside\<close> only says that nothing else changed.
\<close>

definition reorders :: "nat \<Rightarrow> nat \<Rightarrow> 'a list \<Rightarrow> 'a list \<Rightarrow> bool" where
  "reorders first last' mem mem' \<longleftrightarrow>
     length mem' = length mem \<and> mset mem' = mset mem \<and>
     (\<forall>p<length mem. p < first \<or> last' \<le> p \<longrightarrow> mem' ! p = mem ! p)"

definition unchanged_outside :: "nat \<Rightarrow> nat \<Rightarrow> 'a list \<Rightarrow> 'a list \<Rightarrow> bool" where
  "unchanged_outside first last' mem mem' \<longleftrightarrow>
     length mem' = length mem \<and>
     (\<forall>p<length mem. p < first \<or> last' \<le> p \<longrightarrow> mem' ! p = mem ! p)"

text \<open>
  The invariant of both inner loops while the element taken from position \<open>i\<close> sits at
  position \<open>j\<close>: every pair at distance \<open>h\<close> up to \<open>i\<close> is in order except the pair
  that ends at \<open>j\<close>, and the two neighbours of \<open>j\<close> in its stride are in order with
  each other.
\<close>

definition inner_inv :: "nat \<Rightarrow> nat \<Rightarrow> nat \<Rightarrow> 'a BinOp \<Rightarrow> nat \<Rightarrow> 'a list \<Rightarrow> bool" where
  "inner_inv first i h cmp j mem \<longleftrightarrow>
     (\<forall>p. first + h \<le> p \<and> p \<le> i \<and> p \<noteq> j \<longrightarrow> \<not> cmp (mem ! p) (mem ! (p - h))) \<and>
     (j + h \<le> i \<and> first + h \<le> j \<longrightarrow> \<not> cmp (mem ! (j + h)) (mem ! (j - h)))"

text \<open>
  Two elements are equivalent when neither precedes the other; a sort is stable when,
  for every element \<open>a\<close>, the elements equivalent to \<open>a\<close> come out in the order
  they came in.
\<close>

definition equivalent :: "'a BinOp \<Rightarrow> 'a \<Rightarrow> 'a \<Rightarrow> bool" where
  "equivalent cmp a x \<longleftrightarrow> \<not> cmp x a \<and> \<not> cmp a x"

section \<open>The loops as the source writes them\<close>

text \<open>
  The guards of the model differ from the text of the source in three places, each
  time to make the recursion terminate on arguments the source never passes. On the
  arguments it does pass, every loop of the model satisfies the equation of the loop
  as the source writes it.
\<close>

lemma insertion_inner_source:
  "first \<le> j \<Longrightarrow> insertion_inner first cmp j mem =
     (if j \<noteq> first then
        (let k = j - 1 in
         if \<not> cmp (mem ! j) (mem ! k) then mem
         else insertion_inner first cmp (j - 1) (iter_swap j k mem))
      else mem)"
  by (subst insertion_inner.simps) auto

lemma insertion_outer_source:
  "i \<le> last' \<Longrightarrow> insertion_outer first last' cmp i mem =
     (if i \<noteq> last' then insertion_outer first last' cmp (Suc i) (insertion_inner first cmp i mem)
      else mem)"
  by (subst insertion_outer.simps) auto

lemma h_inner_source:
  "0 < h \<Longrightarrow> h_inner first h cmp j mem =
     (if j - first \<ge> h then
        (let k = j - h in
         h_inner first h cmp (j - h) (if cmp (mem ! j) (mem ! k) then iter_swap j k mem else mem))
      else mem)"
  by (subst h_inner.simps) simp

lemma merge_pass_source:
  "0 < sz \<Longrightarrow> merge_pass first last' cmp sz lo mem aux =
     (if lo < last' - sz then
        (let mid = lo + sz;
             hi = lo + 2 * sz;
             hi = (if last' < hi then last' else hi)
         in merge_pass first last' cmp sz (lo + 2 * sz) mem
              (write_at (lo - first) (std_merge cmp (range_of lo mid mem) (range_of mid hi mem)) aux))
      else aux)"
  by (subst merge_pass.simps) simp

lemma merge_passes_source:
  "0 < sz \<Longrightarrow> merge_passes first last' cmp sz (mem, aux) =
     (let dim = last' - first in
      if sz < dim then
        (let aux' = merge_pass first last' cmp sz first mem aux
         in merge_passes first last' cmp (2 * sz) (std_copy aux' dim first mem, aux'))
      else (mem, aux))"
  by (subst merge_passes.simps) simp

section \<open>The comparator\<close>

lemma swo_asym: "strict_weak_order cmp \<Longrightarrow> cmp x y \<Longrightarrow> \<not> cmp y x"
  unfolding strict_weak_order_def by blast

lemma swo_negtrans:
  assumes "strict_weak_order cmp" "\<not> cmp x y" "\<not> cmp y z"
  shows "\<not> cmp x z"
proof
  assume xz: "cmp x z"
  from assms(1) have tr: "\<And>a b c. cmp a b \<Longrightarrow> cmp b c \<Longrightarrow> cmp a c"
    and eq: "\<And>a b c. \<not> cmp a b \<Longrightarrow> \<not> cmp b a \<Longrightarrow> \<not> cmp b c \<Longrightarrow> \<not> cmp c b \<Longrightarrow> \<not> cmp a c"
    unfolding strict_weak_order_def by blast+
  have "\<not> cmp y x" using tr [of y x z] xz assms(3) by blast
  moreover have "\<not> cmp z y" using tr [of x z y] xz assms(2) by blast
  ultimately show False using eq [of x y z] assms(2,3) xz by blast
qed

lemma swo_transp: "strict_weak_order cmp \<Longrightarrow> transp (\<lambda>a b. \<not> cmp b a)"
  using swo_negtrans [of cmp] by (intro transpI) blast

section \<open>Ranges\<close>

lemma reorders_refl: "reorders first last' mem mem"
  by (simp add: reorders_def)

lemma reorders_trans:
  "reorders first last' a b \<Longrightarrow> reorders first last' b c \<Longrightarrow> reorders first last' a c"
  by (simp add: reorders_def)

lemma reorders_mono:
  "reorders lo hi a b \<Longrightarrow> first \<le> lo \<Longrightarrow> hi \<le> last' \<Longrightarrow> reorders first last' a b"
  by (auto simp: reorders_def)

lemma reorders_iter_swap:
  "first \<le> j \<Longrightarrow> j < last' \<Longrightarrow> first \<le> k \<Longrightarrow> k < last' \<Longrightarrow> last' \<le> length mem \<Longrightarrow>
   reorders first last' mem (iter_swap j k mem)"
  unfolding reorders_def iter_swap_def
  by (auto simp: mset_swap)

lemma range_of_nth:
  "last' \<le> length mem \<Longrightarrow> i < last' - first \<Longrightarrow> range_of first last' mem ! i = mem ! (first + i)"
  by (simp add: range_of_def)

lemma length_range_of:
  "last' \<le> length mem \<Longrightarrow> length (range_of first last' mem) = last' - first"
  by (simp add: range_of_def)

lemma split_range:
  "first \<le> last' \<Longrightarrow> last' \<le> length mem \<Longrightarrow>
   mem = take first mem @ range_of first last' mem @ drop last' mem"
proof -
  assume le: "first \<le> last'" "last' \<le> length mem"
  have "drop first mem = take (last' - first) (drop first mem) @ drop (last' - first) (drop first mem)"
    by (rule append_take_drop_id [symmetric])
  also have "drop (last' - first) (drop first mem) = drop last' mem"
    using le by simp
  finally have "take first mem @ drop first mem =
      take first mem @ take (last' - first) (drop first mem) @ drop last' mem"
    by (rule arg_cong)
  then show ?thesis by (simp add: range_of_def)
qed

lemma reorders_take:
  assumes "reorders first last' mem mem'" "first \<le> length mem"
  shows "take first mem' = take first mem"
  using assms unfolding reorders_def
  by (intro nth_equalityI) auto

lemma reorders_drop:
  assumes "reorders first last' mem mem'"
  shows "drop last' mem' = drop last' mem"
  using assms unfolding reorders_def
  by (intro nth_equalityI) auto

lemma mset_split_range:
  assumes "first \<le> last'" "last' \<le> length mem"
  shows "mset mem = mset (take first mem) + mset (range_of first last' mem) + mset (drop last' mem)"
proof -
  have "mset mem = mset (take first mem @ range_of first last' mem @ drop last' mem)"
    by (rule arg_cong [OF split_range [OF assms]])
  then show ?thesis by (simp add: add.assoc)
qed

lemma reorders_mset_range:
  assumes r: "reorders first last' mem mem'" and le: "first \<le> last'" "last' \<le> length mem"
  shows "mset (range_of first last' mem') = mset (range_of first last' mem)"
proof -
  have len: "length mem' = length mem" using r by (simp add: reorders_def)
  have "mset mem' = mset (take first mem') + mset (range_of first last' mem') + mset (drop last' mem')"
    using mset_split_range [of first last' mem'] le len by simp
  moreover have "mset mem = mset (take first mem) + mset (range_of first last' mem) + mset (drop last' mem)"
    using mset_split_range [of first last' mem] le by simp
  moreover have "mset mem' = mset mem" using r by (simp add: reorders_def)
  ultimately show ?thesis
    using reorders_take [OF r] reorders_drop [OF r] le by simp
qed

lemma ordered_non_decreasing:
  assumes swo: "strict_weak_order cmp" and ord: "h_ordered first last' 1 cmp mem"
    and le: "last' \<le> length mem"
  shows "non_decreasing cmp (range_of first last' mem)"
proof -
  have "\<not> cmp (range_of first last' mem ! Suc i) (range_of first last' mem ! i)"
    if "Suc i < length (range_of first last' mem)" for i
  proof -
    from that le have i: "Suc i < last' - first" by (simp add: length_range_of)
    then have "\<not> cmp (mem ! (first + Suc i)) (mem ! (first + Suc i - 1))"
      using ord [unfolded h_ordered_def, rule_format, of "first + Suc i"] by simp
    with i le show ?thesis by (simp add: range_of_nth)
  qed
  then show ?thesis
    unfolding non_decreasing_def
    by (simp add: sorted_wrt_iff_nth_Suc_transp [OF swo_transp [OF swo]])
qed

section \<open>The inner-loop invariant\<close>

lemma iter_swap_nth:
  "j < length mem \<Longrightarrow> k < length mem \<Longrightarrow>
   iter_swap j k mem ! p = (if p = k then mem ! j else if p = j then mem ! k else mem ! p)"
  by (simp add: iter_swap_def nth_list_update)

lemma length_iter_swap: "length (iter_swap j k mem) = length mem"
  by (simp add: iter_swap_def)

lemma inner_inv_init: "h_ordered first i h cmp mem \<Longrightarrow> 0 < h \<Longrightarrow> inner_inv first i h cmp i mem"
  unfolding inner_inv_def h_ordered_def by auto

lemma inner_inv_done:
  "inner_inv first i h cmp j mem \<Longrightarrow> j < first + h \<Longrightarrow> h_ordered first (Suc i) h cmp mem"
  unfolding inner_inv_def h_ordered_def by auto

lemma inner_inv_break:
  "inner_inv first i h cmp j mem \<Longrightarrow> \<not> cmp (mem ! j) (mem ! (j - h)) \<Longrightarrow>
   h_ordered first (Suc i) h cmp mem"
  unfolding inner_inv_def h_ordered_def by (metis less_Suc_eq_le)

lemma inner_inv_keep:
  assumes swo: "strict_weak_order cmp" and h: "0 < h" and j: "first + h \<le> j" "j \<le> i"
    and inv: "inner_inv first i h cmp j mem" and no: "\<not> cmp (mem ! j) (mem ! (j - h))"
  shows "inner_inv first i h cmp (j - h) mem"
  unfolding inner_inv_def
proof (intro conjI allI impI)
  fix p assume "first + h \<le> p \<and> p \<le> i \<and> p \<noteq> j - h"
  then show "\<not> cmp (mem ! p) (mem ! (p - h))"
    using inv no unfolding inner_inv_def by (cases "p = j") auto
next
  assume a: "j - h + h \<le> i \<and> first + h \<le> j - h"
  then have "\<not> cmp (mem ! (j - h)) (mem ! (j - h - h))"
    using inv h unfolding inner_inv_def by auto
  from swo_negtrans [OF swo no this] j h show "\<not> cmp (mem ! (j - h + h)) (mem ! (j - h - h))"
    by simp
qed

lemma inner_inv_swap:
  assumes swo: "strict_weak_order cmp" and h: "0 < h" and j: "first + h \<le> j" "j \<le> i"
    and len: "i < length mem"
    and inv: "inner_inv first i h cmp j mem" and yes: "cmp (mem ! j) (mem ! (j - h))"
  shows "inner_inv first i h cmp (j - h) (iter_swap j (j - h) mem)"
  unfolding inner_inv_def
proof (intro conjI allI impI)
  have jl: "j < length mem" "j - h < length mem" using j len by auto
  fix p assume p: "first + h \<le> p \<and> p \<le> i \<and> p \<noteq> j - h"
  show "\<not> cmp (iter_swap j (j - h) mem ! p) (iter_swap j (j - h) mem ! (p - h))"
  proof (cases "p = j")
    case True
    moreover have "j - h \<noteq> j" using h j by simp
    ultimately show ?thesis
      using swo_asym [OF swo yes] h j by (simp add: iter_swap_nth [OF jl])
  next
    case pj: False
    show ?thesis
    proof (cases "p = j + h")
      case True
      with p have "\<not> cmp (mem ! (j + h)) (mem ! (j - h))"
        using inv j unfolding inner_inv_def by auto
      moreover have "j + h \<noteq> j - h" "j \<noteq> j - h" using h j by auto
      ultimately show ?thesis using True h j by (simp add: iter_swap_nth [OF jl])
    next
      case False
      with pj p h j have "p - h \<noteq> j" "p - h \<noteq> j - h" by auto
      moreover have "\<not> cmp (mem ! p) (mem ! (p - h))"
        using inv p pj unfolding inner_inv_def by auto
      ultimately show ?thesis using p pj by (simp add: iter_swap_nth [OF jl])
    qed
  qed
next
  have jl: "j < length mem" "j - h < length mem" using j len by auto
  assume a: "j - h + h \<le> i \<and> first + h \<le> j - h"
  then have "\<not> cmp (mem ! (j - h)) (mem ! (j - h - h))"
    using inv h unfolding inner_inv_def by auto
  moreover have "j - h - h \<noteq> j" "j - h - h \<noteq> j - h" "j \<noteq> j - h" using a h by auto
  ultimately show "\<not> cmp (iter_swap j (j - h) mem ! (j - h + h)) (iter_swap j (j - h) mem ! (j - h - h))"
    using j h by (simp add: iter_swap_nth [OF jl])
qed

section \<open>Insertion sort\<close>

lemma insertion_inner_reorders:
  "j < length mem \<Longrightarrow> reorders first (Suc j) mem (insertion_inner first cmp j mem)"
proof (induction first cmp j mem rule: insertion_inner.induct)
  case (1 first cmp j mem)
  show ?case
  proof (cases "first < j \<and> cmp (mem ! j) (mem ! (j - 1))")
    case True
    have "reorders first (Suc (j - 1)) (iter_swap j (j - 1) mem)
            (insertion_inner first cmp (j - 1) (iter_swap j (j - 1) mem))"
      using "1.IH" [of "j - 1"] True "1.prems" by (simp add: length_iter_swap)
    then have "reorders first (Suc j) (iter_swap j (j - 1) mem)
            (insertion_inner first cmp (j - 1) (iter_swap j (j - 1) mem))"
      by (rule reorders_mono) auto
    moreover have "reorders first (Suc j) mem (iter_swap j (j - 1) mem)"
      using True "1.prems" by (intro reorders_iter_swap) auto
    ultimately show ?thesis
      using True by (subst insertion_inner.simps) (auto simp: Let_def intro: reorders_trans)
  next
    case False
    then show ?thesis
      by (subst insertion_inner.simps) (auto simp: reorders_refl)
  qed
qed

lemma insertion_inner_ordered:
  "strict_weak_order cmp \<Longrightarrow> inner_inv first i 1 cmp j mem \<Longrightarrow> j \<le> i \<Longrightarrow> i < length mem \<Longrightarrow>
   h_ordered first (Suc i) 1 cmp (insertion_inner first cmp j mem)"
proof (induction first cmp j mem rule: insertion_inner.induct)
  case (1 first cmp j mem)
  show ?case
  proof (cases "first < j")
    case lt: True
    show ?thesis
    proof (cases "cmp (mem ! j) (mem ! (j - 1))")
      case True
      have "inner_inv first i 1 cmp (j - 1) (iter_swap j (j - 1) mem)"
        using inner_inv_swap [OF "1.prems"(1), of 1 first j i mem] lt "1.prems" True by simp
      then have "h_ordered first (Suc i) 1 cmp
                   (insertion_inner first cmp (j - 1) (iter_swap j (j - 1) mem))"
        using "1.IH" [of "j - 1"] lt True "1.prems" by (simp add: length_iter_swap)
      then show ?thesis
        using lt True by (subst insertion_inner.simps) (simp add: Let_def)
    next
      case False
      from inner_inv_break [OF "1.prems"(2) False] show ?thesis
        using lt False by (subst insertion_inner.simps) (simp add: Let_def)
    qed
  next
    case False
    from inner_inv_done [OF "1.prems"(2)] False show ?thesis
      by (subst insertion_inner.simps) simp
  qed
qed

lemma insertion_outer_correct:
  "strict_weak_order cmp \<Longrightarrow> h_ordered first i 1 cmp mem \<Longrightarrow> first \<le> i \<Longrightarrow> i \<le> last' \<Longrightarrow>
   last' \<le> length mem \<Longrightarrow>
   h_ordered first last' 1 cmp (insertion_outer first last' cmp i mem) \<and>
   reorders first last' mem (insertion_outer first last' cmp i mem)"
proof (induction first last' cmp i mem rule: insertion_outer.induct)
  case (1 first last' cmp i mem)
  show ?case
  proof (cases "i < last'")
    case True
    let ?m = "insertion_inner first cmp i mem"
    have il: "i < length mem" using True "1.prems" by simp
    have r: "reorders first last' mem ?m"
      using insertion_inner_reorders [OF il, of first cmp] True
      by (auto intro: reorders_mono)
    then have len: "length ?m = length mem" by (simp add: reorders_def)
    have "h_ordered first (Suc i) 1 cmp ?m"
      using insertion_inner_ordered [OF "1.prems"(1) inner_inv_init [OF "1.prems"(2)]] il by simp
    with "1.IH" [OF True "1.prems"(1)] True "1.prems" len
    have "h_ordered first last' 1 cmp (insertion_outer first last' cmp (Suc i) ?m) \<and>
          reorders first last' ?m (insertion_outer first last' cmp (Suc i) ?m)"
      by simp
    with r show ?thesis
      using True by (subst (1 2) insertion_outer.simps) (auto intro: reorders_trans)
  next
    case False
    with "1.prems" have "i = last'" by simp
    with "1.prems" show ?thesis
      by (subst (1 2) insertion_outer.simps) (simp add: reorders_refl)
  qed
qed

lemma h_ordered_empty: "last' \<le> first + h \<Longrightarrow> h_ordered first last' h cmp mem"
  unfolding h_ordered_def by auto

lemma insertion_sort_correct:
  assumes "strict_weak_order cmp" "first \<le> last'" "last' \<le> length mem"
  shows "h_ordered first last' 1 cmp (insertion_sort first last' cmp mem)"
    and "reorders first last' mem (insertion_sort first last' cmp mem)"
  using insertion_outer_correct [OF assms(1) h_ordered_empty [of first first 1 cmp mem]] assms
  unfolding insertion_sort_def by simp_all

section \<open>Knuth's sequence\<close>

lemma knuth_term_pos: "0 < knuth_term i"
  by (induction i) auto

lemma knuth_term_less: "i < j \<Longrightarrow> knuth_term i < knuth_term j"
proof (induction j)
  case 0
  then show ?case by simp
next
  case (Suc j)
  then show ?case
    using knuth_term_pos [of j] by (cases "i = j") auto
qed

lemma knuth_term_mono: "i \<le> j \<Longrightarrow> knuth_term i \<le> knuth_term j"
  using knuth_term_less [of i j] by (cases "i = j") auto

lemma knuth_loop_term:
  "\<forall>j<i. knuth_term j < n div 3 \<Longrightarrow>
   \<exists>m. knuth_loop n (knuth_term i) = knuth_term m \<and> n div 3 \<le> knuth_term m \<and>
       (\<forall>j<m. knuth_term j < n div 3)"
proof (induction "n div 3 - knuth_term i" arbitrary: i rule: less_induct)
  case less
  show ?case
  proof (cases "knuth_term i < n div 3")
    case True
    have below: "\<forall>j<Suc i. knuth_term j < n div 3"
      using less.prems True by (auto simp: less_Suc_eq)
    have "n div 3 - knuth_term (Suc i) < n div 3 - knuth_term i"
      using True by simp
    from less.hyps [OF this below] True show ?thesis
      by (subst knuth_loop.simps) simp
  next
    case False
    then show ?thesis
      using less.prems by (subst knuth_loop.simps) auto
  qed
qed

lemma knuth_loop_below: "0 < k \<Longrightarrow> k < n \<Longrightarrow> knuth_loop n k < n"
proof (induction n k rule: knuth_loop.induct)
  case (1 n k)
  show ?case
  proof (cases "k < n div 3")
    case True
    then have "3 * k + 1 < n" by arith
    with "1.IH" True show ?thesis
      by (subst knuth_loop.simps) simp
  next
    case False
    then show ?thesis
      using "1.prems" by (subst knuth_loop.simps) simp
  qed
qed

text \<open>
  The doc comment of \<open>knuth_seq\<close> in the source, "max element of knuth sequence less
  than n", does not describe the loop either: for \<open>n = 5\<close> the loop returns \<open>1\<close>
  although the term \<open>4\<close> is below \<open>5\<close>.
\<close>

lemma knuth_seq_five: "knuth_seq 5 = 1 \<and> knuth_term 1 = 4"
  by code_simp

section \<open>h-sort\<close>

lemma h_inner_reorders:
  "j < length mem \<Longrightarrow> reorders first (Suc j) mem (h_inner first h cmp j mem)"
proof (induction first h cmp j mem rule: h_inner.induct)
  case (1 first h cmp j mem)
  show ?case
  proof (cases "0 < h \<and> h \<le> j - first")
    case True
    let ?m = "if cmp (mem ! j) (mem ! (j - h)) then iter_swap j (j - h) mem else mem"
    have len: "length ?m = length mem" by (simp add: length_iter_swap)
    have "reorders first (Suc (j - h)) ?m (h_inner first h cmp (j - h) ?m)"
      using "1.IH" [of "j - h"] True "1.prems" len by simp
    then have "reorders first (Suc j) ?m (h_inner first h cmp (j - h) ?m)"
      by (rule reorders_mono) auto
    moreover have "reorders first (Suc j) mem ?m"
      using True "1.prems" by (auto intro!: reorders_iter_swap simp: reorders_refl)
    ultimately have "reorders first (Suc j) mem (h_inner first h cmp (j - h) ?m)"
      by (rule reorders_trans [rotated])
    then show ?thesis
      using True by (subst h_inner.simps) (simp add: Let_def)
  next
    case False
    then show ?thesis
      by (subst h_inner.simps) (auto simp: reorders_refl)
  qed
qed

lemma h_inner_ordered:
  "strict_weak_order cmp \<Longrightarrow> inner_inv first i h cmp j mem \<Longrightarrow> j \<le> i \<Longrightarrow> i < length mem \<Longrightarrow>
   0 < h \<Longrightarrow> h_ordered first (Suc i) h cmp (h_inner first h cmp j mem)"
proof (induction first h cmp j mem rule: h_inner.induct)
  case (1 first h cmp j mem)
  show ?case
  proof (cases "h \<le> j - first")
    case guard: True
    with "1.prems" have j: "first + h \<le> j" by simp
    let ?m = "if cmp (mem ! j) (mem ! (j - h)) then iter_swap j (j - h) mem else mem"
    have len: "length ?m = length mem" by (simp add: length_iter_swap)
    have "inner_inv first i h cmp (j - h) ?m"
      using inner_inv_swap [OF "1.prems"(1,5) j "1.prems"(3,4,2)]
            inner_inv_keep [OF "1.prems"(1,5) j "1.prems"(3,2)]
      by simp
    then have "h_ordered first (Suc i) h cmp (h_inner first h cmp (j - h) ?m)"
      using "1.IH" [of "j - h"] guard "1.prems" len by simp
    then show ?thesis
      using guard "1.prems"(5) by (subst h_inner.simps) (simp add: Let_def)
  next
    case False
    with "1.prems" have "j < first + h" by simp
    from inner_inv_done [OF "1.prems"(2) this] False show ?thesis
      by (subst h_inner.simps) simp
  qed
qed

lemma h_outer_correct:
  "strict_weak_order cmp \<Longrightarrow> h_ordered first i h cmp mem \<Longrightarrow> 0 < h \<Longrightarrow> i \<le> last' \<Longrightarrow>
   last' \<le> length mem \<Longrightarrow>
   h_ordered first last' h cmp (h_outer first last' h cmp i mem) \<and>
   reorders first last' mem (h_outer first last' h cmp i mem)"
proof (induction first last' h cmp i mem rule: h_outer.induct)
  case (1 first last' h cmp i mem)
  show ?case
  proof (cases "i < last'")
    case True
    let ?m = "h_inner first h cmp i mem"
    have il: "i < length mem" using True "1.prems" by simp
    have r: "reorders first last' mem ?m"
      using h_inner_reorders [OF il, of first h cmp] True
      by (auto intro: reorders_mono)
    then have len: "length ?m = length mem" by (simp add: reorders_def)
    have "h_ordered first (Suc i) h cmp ?m"
      using h_inner_ordered [OF "1.prems"(1) inner_inv_init [OF "1.prems"(2,3)]] il "1.prems"(3)
      by simp
    with "1.IH" [OF True "1.prems"(1)] True "1.prems" len
    have "h_ordered first last' h cmp (h_outer first last' h cmp (Suc i) ?m) \<and>
          reorders first last' ?m (h_outer first last' h cmp (Suc i) ?m)"
      by simp
    with r show ?thesis
      using True by (subst (1 2) h_outer.simps) (auto intro: reorders_trans)
  next
    case False
    with "1.prems" have "i = last'" by simp
    with "1.prems" show ?thesis
      by (subst (1 2) h_outer.simps) (simp add: reorders_refl)
  qed
qed

lemma h_sort_correct:
  assumes swo: "strict_weak_order cmp" and h: "0 < h" and le: "last' \<le> length mem"
  shows "h_ordered first last' h cmp (h_sort first last' h cmp mem) \<and>
         reorders first last' mem (h_sort first last' h cmp mem)"
proof (cases "first + h \<le> last'")
  case True
  from h_outer_correct [OF swo h_ordered_empty [of "first + h" first h cmp mem] h True le]
  show ?thesis by (simp add: h_sort_def)
next
  case False
  then have "h_sort first last' h cmp mem = mem"
    unfolding h_sort_def by (subst h_outer.simps) simp
  with False show ?thesis
    by (simp add: reorders_refl h_ordered_empty)
qed

section \<open>Shell sort\<close>

lemma knuth_term_div3: "knuth_term (Suc i) div 3 = knuth_term i"
  by simp

lemma shell_loop_correct:
  "strict_weak_order cmp \<Longrightarrow> last' \<le> length mem \<Longrightarrow>
   h_ordered first last' 1 cmp (shell_loop first last' cmp (knuth_term i) mem) \<and>
   reorders first last' mem (shell_loop first last' cmp (knuth_term i) mem)"
proof (induction i arbitrary: mem)
  case 0
  have "shell_loop first last' cmp (knuth_term 0) mem = h_sort first last' 1 cmp mem"
    by (simp add: shell_loop.simps [of _ _ _ "Suc 0"] shell_loop.simps [of _ _ _ 0])
  with h_sort_correct [OF "0.prems"(1) _ "0.prems"(2), of 1 first] show ?case by simp
next
  case (Suc i)
  let ?h = "knuth_term (Suc i)"
  let ?m = "h_sort first last' ?h cmp mem"
  have pos: "0 < ?h" by simp
  have r: "reorders first last' mem ?m"
    using h_sort_correct [OF Suc.prems(1) pos Suc.prems(2)] by simp
  then have len: "length ?m = length mem" by (simp add: reorders_def)
  have eq: "shell_loop first last' cmp ?h mem = shell_loop first last' cmp (knuth_term i) ?m"
    using pos knuth_term_div3 [of i] by (subst shell_loop.simps) (simp del: knuth_term.simps)
  from Suc.IH [OF Suc.prems(1), of ?m] len Suc.prems(2) r show ?case
    unfolding eq by (auto intro: reorders_trans)
qed

lemma knuth_seq_is_term: "\<exists>m. knuth_seq n = knuth_term m"
proof -
  have "\<forall>j<0. knuth_term j < n div 3" by simp
  from knuth_loop_term [OF this] show ?thesis
    unfolding knuth_seq_def by auto
qed

lemma shell_sort_correct:
  assumes "strict_weak_order cmp" "last' \<le> length mem"
  shows "h_ordered first last' 1 cmp (shell_sort first last' cmp mem)"
    and "reorders first last' mem (shell_sort first last' cmp mem)"
proof -
  obtain m where "knuth_seq (last' - first) = knuth_term m"
    using knuth_seq_is_term by blast
  with shell_loop_correct [OF assms, of first m]
  show "h_ordered first last' 1 cmp (shell_sort first last' cmp mem)"
    and "reorders first last' mem (shell_sort first last' cmp mem)"
    by (simp_all add: shell_sort_def)
qed

section \<open>Permutation without the comparator contract\<close>

lemma insertion_outer_reorders:
  "first \<le> i \<Longrightarrow> i \<le> last' \<Longrightarrow> last' \<le> length mem \<Longrightarrow>
   reorders first last' mem (insertion_outer first last' cmp i mem)"
proof (induction first last' cmp i mem rule: insertion_outer.induct)
  case (1 first last' cmp i mem)
  show ?case
  proof (cases "i < last'")
    case True
    let ?m = "insertion_inner first cmp i mem"
    have il: "i < length mem" using True "1.prems" by simp
    have r: "reorders first last' mem ?m"
      using insertion_inner_reorders [OF il, of first cmp] True
      by (auto intro: reorders_mono)
    then have len: "length ?m = length mem" by (simp add: reorders_def)
    from "1.IH" [OF True] True "1.prems" len
    have "reorders first last' ?m (insertion_outer first last' cmp (Suc i) ?m)"
      by simp
    with r show ?thesis
      using True by (subst insertion_outer.simps) (auto intro: reorders_trans)
  next
    case False
    then show ?thesis
      by (subst insertion_outer.simps) (simp add: reorders_refl)
  qed
qed

lemma insertion_sort_reorders:
  "first \<le> last' \<Longrightarrow> last' \<le> length mem \<Longrightarrow>
   reorders first last' mem (insertion_sort first last' cmp mem)"
  unfolding insertion_sort_def by (rule insertion_outer_reorders) auto

lemma h_outer_reorders:
  "i \<le> last' \<Longrightarrow> last' \<le> length mem \<Longrightarrow>
   reorders first last' mem (h_outer first last' h cmp i mem)"
proof (induction first last' h cmp i mem rule: h_outer.induct)
  case (1 first last' h cmp i mem)
  show ?case
  proof (cases "i < last'")
    case True
    let ?m = "h_inner first h cmp i mem"
    have il: "i < length mem" using True "1.prems" by simp
    have r: "reorders first last' mem ?m"
      using h_inner_reorders [OF il, of first h cmp] True
      by (auto intro: reorders_mono)
    then have len: "length ?m = length mem" by (simp add: reorders_def)
    from "1.IH" [OF True] True "1.prems" len
    have "reorders first last' ?m (h_outer first last' h cmp (Suc i) ?m)"
      by simp
    with r show ?thesis
      using True by (subst h_outer.simps) (auto intro: reorders_trans)
  next
    case False
    then show ?thesis
      by (subst h_outer.simps) (simp add: reorders_refl)
  qed
qed

lemma h_sort_reorders:
  assumes "last' \<le> length mem"
  shows "reorders first last' mem (h_sort first last' h cmp mem)"
proof (cases "first + h \<le> last'")
  case True
  with assms show ?thesis
    unfolding h_sort_def by (intro h_outer_reorders)
next
  case False
  then have "h_sort first last' h cmp mem = mem"
    unfolding h_sort_def by (subst h_outer.simps) simp
  then show ?thesis by (simp add: reorders_refl)
qed

lemma shell_loop_reorders:
  "last' \<le> length mem \<Longrightarrow> reorders first last' mem (shell_loop first last' cmp h mem)"
proof (induction first last' cmp h mem rule: shell_loop.induct)
  case (1 first last' cmp h mem)
  show ?case
  proof (cases "0 < h")
    case True
    let ?m = "h_sort first last' h cmp mem"
    have r: "reorders first last' mem ?m"
      using h_sort_reorders [OF "1.prems"] .
    then have len: "length ?m = length mem" by (simp add: reorders_def)
    from "1.IH" [OF True] len "1.prems"
    have "reorders first last' ?m (shell_loop first last' cmp (h div 3) ?m)" by simp
    with r show ?thesis
      using True by (subst shell_loop.simps) (auto intro: reorders_trans)
  next
    case False
    then show ?thesis
      by (subst shell_loop.simps) (simp add: reorders_refl)
  qed
qed

lemma shell_sort_reorders:
  "last' \<le> length mem \<Longrightarrow> reorders first last' mem (shell_sort first last' cmp mem)"
  unfolding shell_sort_def by (rule shell_loop_reorders)

section \<open>Merge sort: the frame\<close>

lemma reorders_unchanged: "reorders first last' mem mem' \<Longrightarrow> unchanged_outside first last' mem mem'"
  by (simp add: reorders_def unchanged_outside_def)

lemma unchanged_outside_trans:
  "unchanged_outside first last' a b \<Longrightarrow> unchanged_outside first last' b c \<Longrightarrow>
   unchanged_outside first last' a c"
  by (simp add: unchanged_outside_def)

lemma unchanged_outside_refl: "unchanged_outside first last' a a"
  by (simp add: unchanged_outside_def)

lemma length_write_at:
  "off + length vs \<le> length buf \<Longrightarrow> length (write_at off vs buf) = length buf"
  by (simp add: write_at_def)

lemma nth_write_at_outside:
  "off + length vs \<le> length buf \<Longrightarrow> p < off \<or> off + length vs \<le> p \<Longrightarrow>
   write_at off vs buf ! p = buf ! p"
  by (auto simp: write_at_def nth_append)

lemma length_std_merge: "length (std_merge cmp xs ys) = length xs + length ys"
  by (induction cmp xs ys rule: std_merge.induct) auto

lemma mset_std_merge: "mset (std_merge cmp xs ys) = mset xs + mset ys"
  by (induction cmp xs ys rule: std_merge.induct) auto

lemma set_std_merge: "set (std_merge cmp xs ys) = set xs \<union> set ys"
  by (induction cmp xs ys rule: std_merge.induct) auto

lemma merge_pass_length:
  "first \<le> lo \<Longrightarrow> last' \<le> length mem \<Longrightarrow> last' - first \<le> length aux \<Longrightarrow>
   length (merge_pass first last' cmp sz lo mem aux) = length aux"
proof (induction first last' cmp sz lo mem aux rule: merge_pass.induct)
  case (1 first last' cmp sz lo mem aux)
  show ?case
  proof (cases "0 < sz \<and> lo < last' - sz")
    case True
    let ?hi = "if last' < lo + 2 * sz then last' else lo + 2 * sz"
    let ?vs = "std_merge cmp (range_of lo (lo + sz) mem) (range_of (lo + sz) ?hi mem)"
    let ?aux = "write_at (lo - first) ?vs aux"
    have "length ?vs = ?hi - lo"
      using True "1.prems" by (auto simp: length_std_merge length_range_of)
    then have len: "length ?aux = length aux"
      using True "1.prems" by (intro length_write_at) auto
    have "length (merge_pass first last' cmp sz (lo + 2 * sz) mem ?aux) = length ?aux"
      using "1.IH" [of "lo + sz" "lo + 2 * sz" ?hi] True "1.prems" len by simp
    with len show ?thesis
      using True by (subst merge_pass.simps) (simp add: Let_def)
  next
    case False
    then show ?thesis by (subst merge_pass.simps) auto
  qed
qed

lemma std_copy_unchanged:
  assumes "first \<le> last'" "last' \<le> length mem" "last' - first \<le> length aux"
  shows "unchanged_outside first last' mem (std_copy aux (last' - first) first mem)"
  using assms unfolding unchanged_outside_def std_copy_def
  by (auto simp: length_write_at nth_write_at_outside)

lemma merge_passes_unchanged:
  "first \<le> last' \<Longrightarrow> last' \<le> length (fst s) \<Longrightarrow> last' - first \<le> length (snd s) \<Longrightarrow>
   unchanged_outside first last' (fst s) (fst (merge_passes first last' cmp sz s))"
proof (induction first last' cmp sz s rule: merge_passes.induct)
  case (1 first last' cmp sz mem aux)
  show ?case
  proof (cases "0 < sz \<and> sz < last' - first")
    case True
    let ?aux = "merge_pass first last' cmp sz first mem aux"
    let ?mem = "std_copy ?aux (last' - first) first mem"
    have alen: "length ?aux = length aux"
      using "1.prems" by (intro merge_pass_length) auto
    have u: "unchanged_outside first last' mem ?mem"
      using "1.prems" alen by (intro std_copy_unchanged) auto
    then have mlen: "length ?mem = length mem" by (simp add: unchanged_outside_def)
    have "unchanged_outside first last' ?mem (fst (merge_passes first last' cmp (2 * sz) (?mem, ?aux)))"
      using "1.IH" [of "last' - first" ?aux] True "1.prems" alen mlen by simp
    with u have "unchanged_outside first last' mem (fst (merge_passes first last' cmp (2 * sz) (?mem, ?aux)))"
      by (rule unchanged_outside_trans)
    then show ?thesis
      using True by (subst merge_passes.simps) (simp add: Let_def)
  next
    case False
    then show ?thesis
      by (subst merge_passes.simps) (auto simp: unchanged_outside_refl Let_def)
  qed
qed

lemma cutoff_loop_reorders:
  "first \<le> lo \<Longrightarrow> last' \<le> length mem \<Longrightarrow>
   reorders first last' mem (cutoff_loop last' cmp lo mem)"
proof (induction last' cmp lo mem rule: cutoff_loop.induct)
  case (1 last' cmp lo mem)
  show ?case
  proof (cases "lo < last'")
    case True
    let ?hi = "if last' < lo + cutoff then last' else lo + cutoff"
    let ?m = "insertion_sort lo ?hi cmp mem"
    have "reorders lo ?hi mem ?m"
      using True "1.prems" by (intro insertion_sort_reorders) auto
    then have r: "reorders first last' mem ?m"
      using "1.prems" by (auto intro: reorders_mono)
    then have len: "length ?m = length mem" by (simp add: reorders_def)
    have "reorders first last' ?m (cutoff_loop last' cmp (lo + cutoff) ?m)"
      using "1.IH" [of "lo + cutoff" ?hi] True "1.prems" len by simp
    with r show ?thesis
      using True by (subst cutoff_loop.simps) (auto simp: Let_def intro: reorders_trans)
  next
    case False
    then show ?thesis
      by (subst cutoff_loop.simps) (simp add: reorders_refl)
  qed
qed

lemma merge_sort_unchanged:
  assumes "first \<le> last'" "last' \<le> length mem" "last' - first \<le> length aux"
  shows "unchanged_outside first last' mem (fst (merge_sort first last' aux cmp mem))"
proof -
  let ?m = "cutoff_loop last' cmp first mem"
  have r: "reorders first last' mem ?m"
    using assms by (intro cutoff_loop_reorders) auto
  then have len: "length ?m = length mem" by (simp add: reorders_def)
  have "unchanged_outside first last' ?m (fst (merge_passes first last' cmp cutoff (?m, aux)))"
    using merge_passes_unchanged [of first last' "(?m, aux)" cmp cutoff] assms len by simp
  with reorders_unchanged [OF r] show ?thesis
    unfolding merge_sort_def by (rule unchanged_outside_trans)
qed

lemma std_merge_non_decreasing:
  "strict_weak_order cmp \<Longrightarrow> non_decreasing cmp xs \<Longrightarrow> non_decreasing cmp ys \<Longrightarrow>
   non_decreasing cmp (std_merge cmp xs ys)"
proof (induction cmp xs ys rule: std_merge.induct)
  case (3 cmp x xs y ys)
  show ?case
  proof (cases "cmp y x")
    case True
    have "\<not> cmp z y" if "z \<in> set (x # xs) \<union> set ys" for z
    proof -
      have "\<not> cmp x y" using swo_asym [OF "3.prems"(1) True] .
      moreover have "\<not> cmp z x" if "z \<in> set xs"
        using "3.prems"(2) that by (auto simp: non_decreasing_def)
      moreover have "\<not> cmp z y" if "z \<in> set ys"
        using "3.prems"(3) that by (auto simp: non_decreasing_def)
      ultimately show ?thesis
        using that swo_negtrans [OF "3.prems"(1), of z x y] by auto
    qed
    moreover have "non_decreasing cmp (std_merge cmp (x # xs) ys)"
      using "3.IH"(1) [OF True] "3.prems" by (simp add: non_decreasing_def)
    ultimately show ?thesis
      using True by (simp add: non_decreasing_def set_std_merge del: set_simps)
  next
    case False
    have "\<not> cmp z x" if "z \<in> set xs \<union> set (y # ys)" for z
    proof -
      have "\<not> cmp z x" if "z \<in> set xs"
        using "3.prems"(2) that by (auto simp: non_decreasing_def)
      moreover have "\<not> cmp z y" if "z \<in> set ys"
        using "3.prems"(3) that by (auto simp: non_decreasing_def)
      ultimately show ?thesis
        using that False swo_negtrans [OF "3.prems"(1), of z y x] by auto
    qed
    moreover have "non_decreasing cmp (std_merge cmp xs (y # ys))"
      using "3.IH"(2) [OF False] "3.prems" by (simp add: non_decreasing_def)
    ultimately show ?thesis
      using False by (simp add: non_decreasing_def set_std_merge del: set_simps)
  qed
qed (auto simp: non_decreasing_def)

lemma range_of_append:
  "lo \<le> mid \<Longrightarrow> mid \<le> hi \<Longrightarrow> range_of lo hi m = range_of lo mid m @ range_of mid hi m"
proof -
  assume le: "lo \<le> mid" "mid \<le> hi"
  then have "hi - lo = (mid - lo) + (hi - mid)" by simp
  then have "take (hi - lo) (drop lo m) =
             take (mid - lo) (drop lo m) @ take (hi - mid) (drop (mid - lo) (drop lo m))"
    by (simp only: take_add)
  with le show ?thesis by (simp add: range_of_def)
qed

lemma range_of_write_at:
  "first + length vs \<le> length m \<Longrightarrow> range_of first (first + length vs) (write_at first vs m) = vs"
  by (simp add: range_of_def write_at_def)

lemma unchanged_range_of:
  assumes u: "unchanged_outside lo hi a b" and le: "hi' \<le> lo \<or> hi \<le> lo'" "hi' \<le> length a"
  shows "range_of lo' hi' b = range_of lo' hi' a"
proof (rule nth_equalityI)
  have len: "length b = length a" using u by (simp add: unchanged_outside_def)
  then show "length (range_of lo' hi' b) = length (range_of lo' hi' a)"
    by (simp add: range_of_def)
  fix i assume "i < length (range_of lo' hi' b)"
  then have i: "i < hi' - lo'" using le len by (simp add: range_of_def)
  then have "b ! (lo' + i) = a ! (lo' + i)"
    using u le unfolding unchanged_outside_def by auto
  with i le len show "range_of lo' hi' b ! i = range_of lo' hi' a ! i"
    by (simp add: range_of_nth)
qed

lemma cutoff_loop_done: "last' \<le> lo \<Longrightarrow> cutoff_loop last' cmp lo mem = mem"
  by (subst cutoff_loop.simps) simp

lemma cutoff_loop_step:
  "lo < last' \<Longrightarrow> cutoff_loop last' cmp lo mem =
     cutoff_loop last' cmp (lo + 16) (insertion_sort lo (min last' (lo + 16)) cmp mem)"
  by (subst cutoff_loop.simps) (simp add: Let_def cutoff_def min_def)

lemma merge_pass_done: "last' - sz \<le> lo \<Longrightarrow> merge_pass first last' cmp sz lo mem aux = aux"
  by (subst merge_pass.simps) simp

lemma merge_pass_step:
  "0 < sz \<Longrightarrow> lo < last' - sz \<Longrightarrow> merge_pass first last' cmp sz lo mem aux =
     merge_pass first last' cmp sz (lo + 2 * sz) mem
       (write_at (lo - first)
          (std_merge cmp (range_of lo (lo + sz) mem) (range_of (lo + sz) (min last' (lo + 2 * sz)) mem))
          aux)"
  by (subst merge_pass.simps) (simp add: Let_def min_def)

lemma merge_passes_done: "last' - first \<le> sz \<Longrightarrow> merge_passes first last' cmp sz s = s"
  by (cases s) (simp add: merge_passes.simps)

lemma merge_passes_step:
  "0 < sz \<Longrightarrow> sz < last' - first \<Longrightarrow> merge_passes first last' cmp sz (mem, aux) =
     merge_passes first last' cmp (2 * sz)
       (std_copy (merge_pass first last' cmp sz first mem aux) (last' - first) first mem,
        merge_pass first last' cmp sz first mem aux)"
  by (subst merge_passes.simps) (simp add: Let_def)

lemma merge_sort_16:
  assumes "last' = first + 16"
  shows "merge_sort first last' aux cmp mem = (insertion_sort first last' cmp mem, aux)"
  using assms
  by (simp add: merge_sort_def cutoff_def cutoff_loop_step cutoff_loop_done merge_passes_done)

lemma merge_sort_17:
  assumes "last' = first + 17"
  shows "fst (merge_sort first last' aux cmp mem) =
         (let m1 = insertion_sort first (first + 16) cmp mem;
              m2 = insertion_sort (first + 16) last' cmp m1;
              vs = std_merge cmp (range_of first (first + 16) m2) (range_of (first + 16) last' m2)
          in write_at first (take 17 (write_at 0 vs aux)) m2)"
  using assms
  by (simp add: merge_sort_def cutoff_def Let_def std_copy_def cutoff_loop_step cutoff_loop_done
        merge_passes_step merge_passes_done merge_pass_step merge_pass_done)

lemma insertion_sort_sorts:
  assumes "strict_weak_order cmp" "first \<le> last'" "last' \<le> length mem"
  shows "non_decreasing cmp (range_of first last' (insertion_sort first last' cmp mem))"
    and "mset (range_of first last' (insertion_sort first last' cmp mem)) = mset (range_of first last' mem)"
proof -
  let ?m = "insertion_sort first last' cmp mem"
  have r: "reorders first last' mem ?m" using assms by (intro insertion_sort_reorders)
  then have "length ?m = length mem" by (simp add: reorders_def)
  with insertion_sort_correct(1) [OF assms] assms
  show "non_decreasing cmp (range_of first last' ?m)"
    by (intro ordered_non_decreasing) auto
  from reorders_mset_range [OF r assms(2,3)]
  show "mset (range_of first last' ?m) = mset (range_of first last' mem)" .
qed

lemma merge_sort_17_sorts:
  assumes swo: "strict_weak_order cmp" and l: "last' = first + 17" and le: "last' \<le> length mem"
    and al: "17 \<le> length aux"
  shows "non_decreasing cmp (range_of first last' (fst (merge_sort first last' aux cmp mem)))"
    and "mset (range_of first last' (fst (merge_sort first last' aux cmp mem))) =
         mset (range_of first last' mem)"
proof -
  let ?mid = "first + 16"
  define m1 where "m1 = insertion_sort first ?mid cmp mem"
  define m2 where "m2 = insertion_sort ?mid last' cmp m1"
  define A where "A = range_of first ?mid m2"
  define B where "B = range_of ?mid last' m2"
  define vs where "vs = std_merge cmp A B"
  have r1: "reorders first ?mid mem m1"
    unfolding m1_def using l le by (intro insertion_sort_reorders) auto
  then have len1: "length m1 = length mem" by (simp add: reorders_def)
  have r2: "reorders ?mid last' m1 m2"
    unfolding m2_def using l le len1 by (intro insertion_sort_reorders) auto
  then have len2: "length m2 = length mem" using len1 by (simp add: reorders_def)
  have "range_of first ?mid m2 = range_of first ?mid m1"
    using reorders_unchanged [OF r2] l le len1 by (intro unchanged_range_of) auto
  moreover have "non_decreasing cmp (range_of first ?mid m1)"
    unfolding m1_def using l le by (intro insertion_sort_sorts(1) [OF swo]) auto
  ultimately have sA: "non_decreasing cmp A" by (simp add: A_def)
  have sB: "non_decreasing cmp B"
    unfolding B_def m2_def using l le len1 by (intro insertion_sort_sorts(1) [OF swo]) auto
  have lvs: "length vs = 17"
    using l le len2 by (simp add: vs_def A_def B_def length_std_merge length_range_of)
  have res: "fst (merge_sort first last' aux cmp mem) = write_at first vs m2"
    using merge_sort_17 [OF l, of aux cmp mem] lvs al
    by (simp add: Let_def m1_def m2_def vs_def A_def B_def write_at_def)
  have rng: "range_of first last' (write_at first vs m2) = vs"
    using range_of_write_at [of first vs m2] lvs l le len2 by simp
  show "non_decreasing cmp (range_of first last' (fst (merge_sort first last' aux cmp mem)))"
    unfolding res rng unfolding vs_def by (rule std_merge_non_decreasing [OF swo sA sB])
  have "reorders first last' mem m2"
  proof -
    have "reorders first last' mem m1" using l by (intro reorders_mono [OF r1]) auto
    moreover have "reorders first last' m1 m2" using l by (intro reorders_mono [OF r2]) auto
    ultimately show ?thesis by (rule reorders_trans)
  qed
  from reorders_mset_range [OF this _ le] l
  have "mset (range_of first last' m2) = mset (range_of first last' mem)" by simp
  moreover have "range_of first last' m2 = A @ B"
    unfolding A_def B_def using l by (intro range_of_append) auto
  ultimately show "mset (range_of first last' (fst (merge_sort first last' aux cmp mem))) =
         mset (range_of first last' mem)"
    unfolding res rng unfolding vs_def by (simp add: mset_std_merge)
qed

lemma swo_nat_less: "strict_weak_order ((<) :: nat \<Rightarrow> nat \<Rightarrow> bool)"
  by (auto simp: strict_weak_order_def)

section \<open>Sorted input\<close>

lemma non_decreasing_nth:
  assumes "non_decreasing cmp (range_of first last' mem)" "last' \<le> length mem"
    and "first \<le> a" "a < b" "b < last'"
  shows "\<not> cmp (mem ! b) (mem ! a)"
proof -
  have "\<not> cmp (range_of first last' mem ! (b - first)) (range_of first last' mem ! (a - first))"
    using assms unfolding non_decreasing_def
    by (intro sorted_wrt_nth_less [where P = "\<lambda>x y. \<not> cmp y x"]) (auto simp: length_range_of)
  with assms show ?thesis by (simp add: range_of_nth)
qed

lemma insertion_inner_sorted:
  "first < j \<longrightarrow> \<not> cmp (mem ! j) (mem ! (j - 1)) \<Longrightarrow> insertion_inner first cmp j mem = mem"
  by (subst insertion_inner.simps) (simp add: Let_def)

lemma insertion_outer_sorted:
  "\<forall>j. first < j \<and> j < last' \<longrightarrow> \<not> cmp (mem ! j) (mem ! (j - 1)) \<Longrightarrow>
   insertion_outer first last' cmp i mem = mem"
proof (induction first last' cmp i mem rule: insertion_outer.induct)
  case (1 first last' cmp i mem)
  show ?case
  proof (cases "i < last'")
    case True
    have "insertion_inner first cmp i mem = mem"
      using "1.prems" True by (intro insertion_inner_sorted) simp
    with "1.IH" [OF True] "1.prems" True show ?thesis
      by (subst insertion_outer.simps) simp
  next
    case False
    then show ?thesis by (subst insertion_outer.simps) simp
  qed
qed

lemma insertion_sort_sorted_unchanged:
  assumes "non_decreasing cmp (range_of first last' mem)" "last' \<le> length mem"
  shows "insertion_sort first last' cmp mem = mem"
  unfolding insertion_sort_def
proof (rule insertion_outer_sorted, intro allI impI)
  fix j assume j: "first < j \<and> j < last'"
  then have "first \<le> j - 1" "j - 1 < j" by arith+
  with j show "\<not> cmp (mem ! j) (mem ! (j - 1))"
    using non_decreasing_nth [OF assms, of "j - 1" j] by simp
qed

lemma h_inner_sorted:
  "\<forall>a b. first \<le> a \<and> a < b \<and> b \<le> j \<longrightarrow> \<not> cmp (mem ! b) (mem ! a) \<Longrightarrow>
   h_inner first h cmp j mem = mem"
proof (induction first h cmp j mem rule: h_inner.induct)
  case (1 first h cmp j mem)
  show ?case
  proof (cases "0 < h \<and> h \<le> j - first")
    case True
    then have "first \<le> j - h" "j - h < j" by arith+
    then have "\<not> cmp (mem ! j) (mem ! (j - h))"
      using "1.prems" [rule_format, of "j - h" j] by simp
    moreover have "\<forall>a b. first \<le> a \<and> a < b \<and> b \<le> j - h \<longrightarrow> \<not> cmp (mem ! b) (mem ! a)"
      using "1.prems" by auto
    ultimately have "h_inner first h cmp (j - h) mem = mem"
      using "1.IH" [of "j - h"] True by simp
    moreover note \<open>\<not> cmp (mem ! j) (mem ! (j - h))\<close>
    ultimately show ?thesis
      using True by (subst h_inner.simps) (simp add: Let_def)
  next
    case False
    then show ?thesis by (subst h_inner.simps) auto
  qed
qed

lemma h_outer_sorted:
  "\<forall>a b. first \<le> a \<and> a < b \<and> b < last' \<longrightarrow> \<not> cmp (mem ! b) (mem ! a) \<Longrightarrow>
   h_outer first last' h cmp i mem = mem"
proof (induction first last' h cmp i mem rule: h_outer.induct)
  case (1 first last' h cmp i mem)
  show ?case
  proof (cases "i < last'")
    case True
    have "h_inner first h cmp i mem = mem"
      using "1.prems" True by (intro h_inner_sorted) simp
    with "1.IH" [OF True] "1.prems" True show ?thesis
      by (subst h_outer.simps) simp
  next
    case False
    then show ?thesis by (subst h_outer.simps) simp
  qed
qed

lemma shell_loop_sorted:
  "\<forall>a b. first \<le> a \<and> a < b \<and> b < last' \<longrightarrow> \<not> cmp (mem ! b) (mem ! a) \<Longrightarrow>
   shell_loop first last' cmp h mem = mem"
proof (induction first last' cmp h mem rule: shell_loop.induct)
  case (1 first last' cmp h mem)
  show ?case
  proof (cases "0 < h")
    case True
    have "h_sort first last' h cmp mem = mem"
      unfolding h_sort_def using "1.prems" by (rule h_outer_sorted)
    with "1.IH" [OF True] "1.prems" True show ?thesis
      by (subst shell_loop.simps) simp
  next
    case False
    then show ?thesis by (subst shell_loop.simps) simp
  qed
qed

lemma shell_sort_sorted_unchanged:
  assumes "non_decreasing cmp (range_of first last' mem)" "last' \<le> length mem"
  shows "shell_sort first last' cmp mem = mem"
  unfolding shell_sort_def
proof (rule shell_loop_sorted, intro allI impI)
  fix a b assume "first \<le> a \<and> a < b \<and> b < last'"
  then show "\<not> cmp (mem ! b) (mem ! a)"
    using non_decreasing_nth [OF assms, of a b] by simp
qed

section \<open>Stability of insertion sort\<close>

lemma split_adjacent:
  assumes "Suc k < length mem"
  shows "mem = take k mem @ mem ! k # mem ! Suc k # drop (Suc (Suc k)) mem"
proof -
  have "mem = take k mem @ mem ! k # drop (Suc k) mem"
    using assms by (intro id_take_nth_drop) simp
  also have "drop (Suc k) mem = mem ! Suc k # drop (Suc (Suc k)) mem"
    using assms by (simp add: Cons_nth_drop_Suc)
  finally show ?thesis .
qed

lemma iter_swap_adjacent:
  "length pre = k \<Longrightarrow> iter_swap (Suc k) k (pre @ x # y # post) = pre @ y # x # post"
  by (simp add: iter_swap_def nth_append list_update_append)

lemma filter_iter_swap_adjacent:
  assumes "Suc k < length mem" "\<not> (P (mem ! k) \<and> P (mem ! Suc k))"
  shows "filter P (iter_swap (Suc k) k mem) = filter P mem"
proof -
  let ?pre = "take k mem" and ?post = "drop (Suc (Suc k)) mem"
  have len: "length ?pre = k" using assms(1) by simp
  have "filter P (iter_swap (Suc k) k (?pre @ mem ! k # mem ! Suc k # ?post)) =
        filter P (?pre @ mem ! k # mem ! Suc k # ?post)"
    unfolding iter_swap_adjacent [OF len] using assms(2) by auto
  then show ?thesis
    by (simp only: split_adjacent [OF assms(1), symmetric])
qed

lemma equivalent_not_cmp:
  assumes swo: "strict_weak_order cmp" and "equivalent cmp a x" "equivalent cmp a y"
  shows "\<not> cmp x y"
proof -
  from swo have eq: "\<And>x y z. \<not> cmp x y \<Longrightarrow> \<not> cmp y x \<Longrightarrow> \<not> cmp y z \<Longrightarrow> \<not> cmp z y \<Longrightarrow> \<not> cmp x z"
    unfolding strict_weak_order_def by blast
  from eq [of x a y] assms(2,3) show ?thesis
    unfolding equivalent_def by blast
qed

lemma insertion_inner_stable:
  "strict_weak_order cmp \<Longrightarrow> j < length mem \<Longrightarrow>
   filter (equivalent cmp a) (insertion_inner first cmp j mem) = filter (equivalent cmp a) mem"
proof (induction first cmp j mem rule: insertion_inner.induct)
  case (1 first cmp j mem)
  show ?case
  proof (cases "first < j \<and> cmp (mem ! j) (mem ! (j - 1))")
    case True
    then obtain k where k: "j = Suc k" by (cases j) auto
    have "\<not> (equivalent cmp a (mem ! k) \<and> equivalent cmp a (mem ! Suc k))"
      using True k equivalent_not_cmp [OF "1.prems"(1), of a "mem ! Suc k" "mem ! k"] by auto
    then have "filter (equivalent cmp a) (iter_swap j (j - 1) mem) = filter (equivalent cmp a) mem"
      using filter_iter_swap_adjacent [of k mem "equivalent cmp a"] k "1.prems"(2) by simp
    moreover have "filter (equivalent cmp a) (insertion_inner first cmp (j - 1) (iter_swap j (j - 1) mem))
                 = filter (equivalent cmp a) (iter_swap j (j - 1) mem)"
      using "1.IH" [of "j - 1"] True "1.prems" by (simp add: length_iter_swap)
    ultimately show ?thesis
      using True by (subst insertion_inner.simps) (simp add: Let_def)
  next
    case False
    then show ?thesis by (subst insertion_inner.simps) (auto simp: Let_def)
  qed
qed

lemma insertion_outer_stable:
  "strict_weak_order cmp \<Longrightarrow> last' \<le> length mem \<Longrightarrow>
   filter (equivalent cmp a) (insertion_outer first last' cmp i mem) = filter (equivalent cmp a) mem"
proof (induction first last' cmp i mem rule: insertion_outer.induct)
  case (1 first last' cmp i mem)
  show ?case
  proof (cases "i < last'")
    case True
    let ?m = "insertion_inner first cmp i mem"
    have il: "i < length mem" using True "1.prems" by simp
    have len: "length ?m = length mem"
      using insertion_inner_reorders [OF il, of first cmp] by (simp add: reorders_def)
    have "filter (equivalent cmp a) ?m = filter (equivalent cmp a) mem"
      using "1.prems"(1) il by (rule insertion_inner_stable)
    with "1.IH" [OF True "1.prems"(1)] "1.prems"(2) len True show ?thesis
      by (subst insertion_outer.simps) simp
  next
    case False
    then show ?thesis by (subst insertion_outer.simps) simp
  qed
qed

lemma insertion_sort_stable:
  assumes swo: "strict_weak_order cmp" and le: "first \<le> last'" "last' \<le> length mem"
  shows "filter (equivalent cmp a) (range_of first last' (insertion_sort first last' cmp mem)) =
         filter (equivalent cmp a) (range_of first last' mem)"
proof -
  let ?m = "insertion_sort first last' cmp mem" and ?P = "equivalent cmp a"
  have r: "reorders first last' mem ?m" using le by (rule insertion_sort_reorders)
  then have len: "length ?m = length mem" by (simp add: reorders_def)
  have whole: "filter ?P ?m = filter ?P mem"
    unfolding insertion_sort_def using swo le(2) by (rule insertion_outer_stable)
  have "?m = take first ?m @ range_of first last' ?m @ drop last' ?m"
    using le len by (intro split_range) simp_all
  then have "filter ?P ?m = filter ?P (take first ?m @ range_of first last' ?m @ drop last' ?m)"
    by (rule arg_cong)
  moreover have "filter ?P mem = filter ?P (take first mem @ range_of first last' mem @ drop last' mem)"
    by (rule arg_cong [OF split_range [OF le]])
  ultimately show ?thesis
    using whole reorders_take [OF r] reorders_drop [OF r] le by simp
qed

lemma merge_sort_stable_below_cutoff:
  "fst (merge_sort 0 3 [(9, CHR ''z''), (9, CHR ''z''), (9, CHR ''z'')] (\<lambda>a b. fst a < fst b)
      [(1 :: nat, CHR ''a''), (1, CHR ''b''), (0, CHR ''c'')])
   = [(0, CHR ''c''), (1, CHR ''a''), (1, CHR ''b'')]"
  by code_simp

section \<open>The claims\<close>

lemma swo_key_less: "strict_weak_order (\<lambda>a b. fst a < (fst b :: nat))"
  by (auto simp: strict_weak_order_def)

text \<open>
  C1 (merge sort sorts and permutes every range): fails on the code. A pass of the merge
  loop writes to the buffer only the runs it merges in pairs; when the number of runs is
  odd, the last run is never written to the buffer, and \<open>std::copy\<close> then overwrites
  it in the range with whatever the buffer held. With 40 elements there are three runs
  (16, 16 and 8): the pass with \<open>sz = 16\<close> merges the first two and replaces the
  last 8 elements by \<open>aux[32..40)\<close>. On the reverse-sorted sequence \<open>40, ..., 1\<close> with a
  buffer of 40 zeros the elements \<open>1, ..., 8\<close> are lost.
\<close>

theorem merge_sort_forty_reversed_loses_last_run:
  "fst (merge_sort 0 40 (replicate 40 0) (<)
     [40, 39, 38, 37, 36, 35, 34, 33, 32, 31, 30, 29, 28, 27, 26, 25, 24, 23, 22, 21,
      20, 19, 18, 17, 16, 15, 14, 13, 12, 11, 10, 9, 8, 7, 6, 5, 4, 3, 2, 1 :: nat])
   = [0, 0, 0, 0, 0, 0, 0, 0, 9, 10, 11, 12, 13, 14, 15, 16, 17, 18, 19, 20,
      21, 22, 23, 24, 25, 26, 27, 28, 29, 30, 31, 32, 33, 34, 35, 36, 37, 38, 39, 40]"
  by code_simp

text \<open>
  C2, as the code has it: for every \<open>n > 1\<close>, \<open>knuth_seq n\<close> is the smallest term of
  the sequence \<open>k\<^sub>0 = 1\<close>, \<open>k\<^sub>i\<^sub>+\<^sub>1 = 3 k\<^sub>i + 1\<close> that is at least \<open>n div 3\<close> (the
  loop leaves at the first term that is not below \<open>n div 3\<close>), and that term is
  below \<open>n\<close>.
\<close>

theorem knuth_seq_smallest_term_reaching_third:
  assumes "1 < n"
  shows "\<exists>i. knuth_seq n = knuth_term i \<and> n div 3 \<le> knuth_term i \<and>
             (\<forall>j. n div 3 \<le> knuth_term j \<longrightarrow> knuth_term i \<le> knuth_term j) \<and>
             knuth_seq n < n"
proof -
  have "\<forall>j<0. knuth_term j < n div 3" by simp
  from knuth_loop_term [OF this] obtain m where
    m: "knuth_loop n (knuth_term 0) = knuth_term m" "n div 3 \<le> knuth_term m"
       "\<forall>j<m. knuth_term j < n div 3"
    by blast
  have least: "knuth_term m \<le> knuth_term j" if "n div 3 \<le> knuth_term j" for j
  proof -
    from that m(3) have "\<not> j < m" by auto
    then show ?thesis by (simp add: knuth_term_mono)
  qed
  have "knuth_loop n 1 < n"
    using assms by (intro knuth_loop_below) auto
  with m(1,2) least show ?thesis
    unfolding knuth_seq_def by auto
qed

theorem knuth_seq_smallest_term_reaching_third_witness:
  "(1::nat) < 100 \<and>
   (\<exists>i. knuth_seq 100 = knuth_term i \<and> 100 div 3 \<le> knuth_term i \<and>
        (\<forall>j. 100 div 3 \<le> knuth_term j \<longrightarrow> knuth_term i \<le> knuth_term j) \<and>
        knuth_seq 100 < 100)"
  using knuth_seq_smallest_term_reaching_third [of 100] by simp

text \<open>
  C2 as the specification words it fails: \<open>knuth_seq 100\<close> is \<open>40\<close>, which is not
  below \<open>100 div 3 = 33\<close>, while the term \<open>13\<close> is the largest one below \<open>33\<close>.
\<close>

theorem knuth_seq_not_below_third:
  "knuth_seq 100 = 40 \<and> \<not> knuth_seq 100 < 100 div 3 \<and>
   knuth_term 2 = 13 \<and> knuth_term 2 < 100 div 3 \<and> knuth_term 3 = 40"
  by code_simp

text \<open>
  C3: for a valid range and a strict weak ordering, \<open>insertion_sort\<close> leaves the range
  non-decreasing and a permutation of what it held.
\<close>

theorem insertion_sort_sorts_and_permutes:
  assumes "strict_weak_order cmp" "first \<le> last'" "last' \<le> length mem"
  shows "non_decreasing cmp (range_of first last' (insertion_sort first last' cmp mem)) \<and>
         mset (range_of first last' (insertion_sort first last' cmp mem)) =
         mset (range_of first last' mem)"
  using insertion_sort_sorts [OF assms] by simp

theorem insertion_sort_sorts_and_permutes_witness:
  "strict_weak_order ((<) :: nat \<Rightarrow> nat \<Rightarrow> bool) \<and> (0::nat) \<le> 5 \<and> 5 \<le> length [5, 3, 4, 1, 2 :: nat] \<and>
   insertion_sort 0 5 (<) [5, 3, 4, 1, 2 :: nat] = [1, 2, 3, 4, 5] \<and>
   non_decreasing (<) (range_of 0 5 (insertion_sort 0 5 (<) [5, 3, 4, 1, 2 :: nat])) \<and>
   mset (range_of 0 5 (insertion_sort 0 5 (<) [5, 3, 4, 1, 2 :: nat])) =
   mset (range_of 0 5 [5, 3, 4, 1, 2 :: nat])"
proof -
  have ev: "insertion_sort 0 5 (<) [5, 3, 4, 1, 2 :: nat] = [1, 2, 3, 4, 5]"
    by code_simp
  from insertion_sort_sorts_and_permutes [OF swo_nat_less, of 0 5 "[5, 3, 4, 1, 2]"] ev swo_nat_less
  show ?thesis by simp
qed

text \<open>
  C4: for a valid range and a strict weak ordering, \<open>shell_sort\<close> leaves the range
  non-decreasing and a permutation of what it held. The gaps are terms of Knuth's
  sequence, so the last pass has gap 1, and a pass with gap 1 orders the whole range.
\<close>

theorem shell_sort_sorts_and_permutes:
  assumes "strict_weak_order cmp" "first \<le> last'" "last' \<le> length mem"
  shows "non_decreasing cmp (range_of first last' (shell_sort first last' cmp mem)) \<and>
         mset (range_of first last' (shell_sort first last' cmp mem)) =
         mset (range_of first last' mem)"
proof -
  let ?m = "shell_sort first last' cmp mem"
  have r: "reorders first last' mem ?m"
    using assms(3) by (rule shell_sort_reorders)
  then have "length ?m = length mem" by (simp add: reorders_def)
  with shell_sort_correct(1) [OF assms(1,3), of first] assms
  have "non_decreasing cmp (range_of first last' ?m)"
    by (intro ordered_non_decreasing) auto
  with reorders_mset_range [OF r assms(2,3)] show ?thesis by simp
qed

theorem shell_sort_sorts_and_permutes_witness:
  "strict_weak_order ((<) :: nat \<Rightarrow> nat \<Rightarrow> bool) \<and> (0::nat) \<le> 9 \<and>
   9 \<le> length [9, 8, 7, 6, 5, 4, 3, 2, 1 :: nat] \<and>
   shell_sort 0 9 (<) [9, 8, 7, 6, 5, 4, 3, 2, 1 :: nat] = [1, 2, 3, 4, 5, 6, 7, 8, 9] \<and>
   non_decreasing (<) (range_of 0 9 (shell_sort 0 9 (<) [9, 8, 7, 6, 5, 4, 3, 2, 1 :: nat])) \<and>
   mset (range_of 0 9 (shell_sort 0 9 (<) [9, 8, 7, 6, 5, 4, 3, 2, 1 :: nat])) =
   mset (range_of 0 9 [9, 8, 7, 6, 5, 4, 3, 2, 1 :: nat])"
proof -
  have ev: "shell_sort 0 9 (<) [9, 8, 7, 6, 5, 4, 3, 2, 1 :: nat] = [1, 2, 3, 4, 5, 6, 7, 8, 9]"
    by code_simp
  from shell_sort_sorts_and_permutes [OF swo_nat_less, of 0 9 "[9, 8, 7, 6, 5, 4, 3, 2, 1]"]
    ev swo_nat_less
  show ?thesis by simp
qed

text \<open>
  C5 (insertion sort and merge sort are stable): \<open>insertion_sort\<close> is stable
  (\<open>insertion_sort_stable\<close>), and so is \<open>merge_sort\<close> on the three elements of the
  claim's example (\<open>merge_sort_stable_below_cutoff\<close>), but the claim fails on the code
  for \<open>merge_sort\<close>, by the defect of C1. Forty elements with the same key \<open>1\<close> and the labels \<open>0, ..., 39\<close>
  are equal under the comparator on keys; with a buffer of forty \<open>(0, 0)\<close> the call
  returns eight copies of \<open>(0, 0)\<close> and the elements labelled \<open>0, ..., 31\<close>: the equal
  elements labelled \<open>32, ..., 39\<close> are gone.
\<close>

theorem merge_sort_forty_equal_keys_loses_last_run:
  "fst (merge_sort 0 40 (replicate 40 (0, 0)) (\<lambda>a b. fst a < fst b)
     (map (\<lambda>i. (1 :: nat, i)) [0 ..< 40 :: nat]))
   = replicate 8 (0, 0) @ map (\<lambda>i. (1, i)) [0 ..< 32]"
  by code_simp

text \<open>
  C6 (sorting a sorted range leaves it unchanged): \<open>insertion_sort\<close> and
  \<open>shell_sort\<close> return a sorted range as it is, with no exchange
  (\<open>insertion_sort_sorted_unchanged\<close>, \<open>shell_sort_sorted_unchanged\<close>), but the claim
  fails on the code for \<open>merge_sort\<close>, by the defect of C1. The sorted sequence \<open>1, ..., 40\<close> with a buffer of 40 zeros comes
  back as eight zeros followed by \<open>1, ..., 32\<close>.
\<close>

theorem merge_sort_forty_sorted_changed:
  "fst (merge_sort 0 40 (replicate 40 0) (<)
     [1, 2, 3, 4, 5, 6, 7, 8, 9, 10, 11, 12, 13, 14, 15, 16, 17, 18, 19, 20,
      21, 22, 23, 24, 25, 26, 27, 28, 29, 30, 31, 32, 33, 34, 35, 36, 37, 38, 39, 40 :: nat])
   = [0, 0, 0, 0, 0, 0, 0, 0, 1, 2, 3, 4, 5, 6, 7, 8, 9, 10, 11, 12,
      13, 14, 15, 16, 17, 18, 19, 20, 21, 22, 23, 24, 25, 26, 27, 28, 29, 30, 31, 32]"
  by code_simp

text \<open>
  C7: a range of 16 elements (the cutoff) and a range of 17 elements are both sorted by
  \<open>merge_sort\<close>: non-decreasing and a permutation of what the range held. With 16
  elements there is one insertion-sorted run and no merge pass; with 17 there are two
  runs and one pass, which merges them.
\<close>

theorem merge_sort_sorts_at_cutoff_sizes:
  assumes "strict_weak_order cmp" "last' \<le> length mem" "last' - first \<le> length aux"
    and "last' - first = 16 \<or> last' - first = 17"
  shows "non_decreasing cmp (range_of first last' (fst (merge_sort first last' aux cmp mem))) \<and>
         mset (range_of first last' (fst (merge_sort first last' aux cmp mem))) =
         mset (range_of first last' mem)"
  using assms(4)
proof
  assume "last' - first = 16"
  then have l: "last' = first + 16" by simp
  from insertion_sort_sorts [OF assms(1) _ assms(2), of first] l show ?thesis
    by (simp add: merge_sort_16 [OF refl])
next
  assume "last' - first = 17"
  then have l: "last' = first + 17" by simp
  with assms(3) have "17 \<le> length aux" by simp
  from merge_sort_17_sorts [OF assms(1) l assms(2) this] show ?thesis by simp
qed

theorem merge_sort_sorts_at_cutoff_sizes_witness:
  "strict_weak_order ((<) :: nat \<Rightarrow> nat \<Rightarrow> bool) \<and>
   17 \<le> length [17, 16, 15, 14, 13, 12, 11, 10, 9, 8, 7, 6, 5, 4, 3, 2, 1 :: nat] \<and>
   17 - 0 \<le> length (replicate 17 (0 :: nat)) \<and>
   ((17 :: nat) - 0 = 16 \<or> (17 :: nat) - 0 = 17) \<and>
   fst (merge_sort 0 17 (replicate 17 0) (<)
          [17, 16, 15, 14, 13, 12, 11, 10, 9, 8, 7, 6, 5, 4, 3, 2, 1 :: nat])
     = [1, 2, 3, 4, 5, 6, 7, 8, 9, 10, 11, 12, 13, 14, 15, 16, 17] \<and>
   non_decreasing (<) (range_of 0 17 (fst (merge_sort 0 17 (replicate 17 0) (<)
          [17, 16, 15, 14, 13, 12, 11, 10, 9, 8, 7, 6, 5, 4, 3, 2, 1 :: nat]))) \<and>
   mset (range_of 0 17 (fst (merge_sort 0 17 (replicate 17 0) (<)
          [17, 16, 15, 14, 13, 12, 11, 10, 9, 8, 7, 6, 5, 4, 3, 2, 1 :: nat]))) =
   mset (range_of 0 17 [17, 16, 15, 14, 13, 12, 11, 10, 9, 8, 7, 6, 5, 4, 3, 2, 1 :: nat])"
proof -
  have ev: "fst (merge_sort 0 17 (replicate 17 0) (<)
          [17, 16, 15, 14, 13, 12, 11, 10, 9, 8, 7, 6, 5, 4, 3, 2, 1 :: nat])
     = [1, 2, 3, 4, 5, 6, 7, 8, 9, 10, 11, 12, 13, 14, 15, 16, 17]"
    by code_simp
  from merge_sort_sorts_at_cutoff_sizes [OF swo_nat_less, of 17
      "[17, 16, 15, 14, 13, 12, 11, 10, 9, 8, 7, 6, 5, 4, 3, 2, 1]" 0 "replicate 17 0"]
    ev swo_nat_less
  show ?thesis by simp
qed

text \<open>
  C8: \<open>shell_sort\<close> is not stable. Six elements tagged \<open>a, ..., f\<close> and compared by
  their keys: the pass with gap 4 exchanges \<open>(1, a)\<close> at position 0 with \<open>(0, e)\<close> at
  position 4, which carries \<open>(1, a)\<close> behind the equal \<open>(1, b)\<close>, and the pass with
  gap 1 never exchanges equal elements.
\<close>

theorem shell_sort_not_stable:
  "\<exists>(cmp :: (nat \<times> char) BinOp) mem i j i' j'.
     strict_weak_order cmp \<and> distinct mem \<and>
     i < j \<and> j < length mem \<and> \<not> cmp (mem ! i) (mem ! j) \<and> \<not> cmp (mem ! j) (mem ! i) \<and>
     j' < i' \<and> i' < length mem \<and>
     shell_sort 0 (length mem) cmp mem ! i' = mem ! i \<and>
     shell_sort 0 (length mem) cmp mem ! j' = mem ! j"
proof -
  let ?cmp = "\<lambda>a b. fst a < (fst b :: nat)"
  let ?mem = "[(1 :: nat, CHR ''a''), (1, CHR ''b''), (2, CHR ''c''), (2, CHR ''d''),
               (0, CHR ''e''), (3, CHR ''f'')]"
  have ev: "shell_sort 0 6 ?cmp ?mem =
        [(0, CHR ''e''), (1, CHR ''b''), (1, CHR ''a''), (2, CHR ''c''), (2, CHR ''d''),
         (3, CHR ''f'')]"
    by code_simp
  have len: "length ?mem = 6" by simp
  have "strict_weak_order ?cmp \<and> distinct ?mem \<and>
     (0 :: nat) < 1 \<and> 1 < length ?mem \<and> \<not> ?cmp (?mem ! 0) (?mem ! 1) \<and> \<not> ?cmp (?mem ! 1) (?mem ! 0) \<and>
     (1 :: nat) < 2 \<and> 2 < length ?mem \<and>
     shell_sort 0 (length ?mem) ?cmp ?mem ! 2 = ?mem ! 0 \<and>
     shell_sort 0 (length ?mem) ?cmp ?mem ! 1 = ?mem ! 1"
    unfolding len using swo_key_less ev by simp
  then show ?thesis by blast
qed

theorem shell_sort_not_stable_witness:
  "(\<exists>cmp :: (nat \<times> char) BinOp. strict_weak_order cmp) \<and>
   (\<exists>(cmp :: (nat \<times> char) BinOp) mem i j i' j'.
      strict_weak_order cmp \<and> i < j \<and> j < length mem \<and>
      \<not> cmp (mem ! i) (mem ! j) \<and> \<not> cmp (mem ! j) (mem ! i) \<and> j' < i' \<and>
      shell_sort 0 (length mem) cmp mem ! i' = mem ! i \<and>
      shell_sort 0 (length mem) cmp mem ! j' = mem ! j)"
  using shell_sort_not_stable by blast

text \<open>
  C9: a call of \<open>insertion_sort\<close>, \<open>shell_sort\<close> or \<open>merge_sort\<close> on a valid range
  (for \<open>merge_sort\<close> with a buffer of its own that is long enough) changes neither the
  length of the underlying sequence nor any element outside the range, whatever the
  comparator.
\<close>

theorem sorts_leave_outside_unchanged:
  assumes "first \<le> last'" "last' \<le> length mem" "last' - first \<le> length aux"
    and "p < length mem" "p < first \<or> last' \<le> p"
  shows "length (insertion_sort first last' cmp mem) = length mem \<and>
         insertion_sort first last' cmp mem ! p = mem ! p \<and>
         length (shell_sort first last' cmp mem) = length mem \<and>
         shell_sort first last' cmp mem ! p = mem ! p \<and>
         length (fst (merge_sort first last' aux cmp mem)) = length mem \<and>
         fst (merge_sort first last' aux cmp mem) ! p = mem ! p"
proof -
  have "unchanged_outside first last' mem (insertion_sort first last' cmp mem)"
    using assms(1,2) by (intro reorders_unchanged insertion_sort_reorders)
  moreover have "unchanged_outside first last' mem (shell_sort first last' cmp mem)"
    using assms(2) by (intro reorders_unchanged shell_sort_reorders)
  moreover have "unchanged_outside first last' mem (fst (merge_sort first last' aux cmp mem))"
    using assms(1,2,3) by (rule merge_sort_unchanged)
  ultimately show ?thesis
    using assms(4,5) unfolding unchanged_outside_def by blast
qed

theorem sorts_leave_outside_unchanged_witness:
  "(1 :: nat) \<le> 6 \<and> 6 \<le> length [70, 5, 3, 4, 1, 2, 60 :: nat] \<and>
   6 - 1 \<le> length (replicate 5 (0 :: nat)) \<and> 6 < length [70, 5, 3, 4, 1, 2, 60 :: nat] \<and>
   ((6 :: nat) < 1 \<or> (6 :: nat) \<le> 6) \<and>
   insertion_sort 1 6 (<) [70, 5, 3, 4, 1, 2, 60 :: nat] = [70, 1, 2, 3, 4, 5, 60] \<and>
   shell_sort 1 6 (<) [70, 5, 3, 4, 1, 2, 60 :: nat] = [70, 1, 2, 3, 4, 5, 60] \<and>
   fst (merge_sort 1 6 (replicate 5 0) (<) [70, 5, 3, 4, 1, 2, 60 :: nat]) = [70, 1, 2, 3, 4, 5, 60] \<and>
   insertion_sort 1 6 (<) [70, 5, 3, 4, 1, 2, 60 :: nat] ! 6 = [70, 5, 3, 4, 1, 2, 60] ! 6 \<and>
   shell_sort 1 6 (<) [70, 5, 3, 4, 1, 2, 60 :: nat] ! 6 = [70, 5, 3, 4, 1, 2, 60] ! 6 \<and>
   fst (merge_sort 1 6 (replicate 5 0) (<) [70, 5, 3, 4, 1, 2, 60 :: nat]) ! 6 =
     [70, 5, 3, 4, 1, 2, 60] ! 6"
proof -
  have ev: "insertion_sort 1 6 (<) [70, 5, 3, 4, 1, 2, 60 :: nat] = [70, 1, 2, 3, 4, 5, 60]"
    "shell_sort 1 6 (<) [70, 5, 3, 4, 1, 2, 60 :: nat] = [70, 1, 2, 3, 4, 5, 60]"
    "fst (merge_sort 1 6 (replicate 5 0) (<) [70, 5, 3, 4, 1, 2, 60 :: nat]) = [70, 1, 2, 3, 4, 5, 60]"
    by code_simp+
  have "insertion_sort 1 6 (<) [70, 5, 3, 4, 1, 2, 60 :: nat] ! 6 = [70, 5, 3, 4, 1, 2, 60] ! 6 \<and>
        shell_sort 1 6 (<) [70, 5, 3, 4, 1, 2, 60 :: nat] ! 6 = [70, 5, 3, 4, 1, 2, 60] ! 6 \<and>
        fst (merge_sort 1 6 (replicate 5 0) (<) [70, 5, 3, 4, 1, 2, 60 :: nat]) ! 6 =
          [70, 5, 3, 4, 1, 2, 60] ! 6"
    using sorts_leave_outside_unchanged [of 1 6 "[70, 5, 3, 4, 1, 2, 60 :: nat]" "replicate 5 0" 6 "(<)"]
    by simp
  with ev show ?thesis by simp
qed

text \<open>
  C10: for a strict weak ordering and a gap \<open>h\<close> with \<open>0 < h < last - first\<close>, one call
  of \<open>h_sort\<close> leaves the range a permutation of what it held in which no element
  precedes the element \<open>h\<close> places before it. The inner loop has no early exit: it
  carries the new element back along its stride as far as it goes and then compares
  pairs that are already in order.
\<close>

theorem h_sort_permutes_and_h_orders:
  assumes "strict_weak_order cmp" "0 < h" "h < last' - first" "last' \<le> length mem"
  shows "mset (range_of first last' (h_sort first last' h cmp mem)) =
         mset (range_of first last' mem) \<and>
         (\<forall>p. first + h \<le> p \<and> p < last' \<longrightarrow>
              \<not> cmp (h_sort first last' h cmp mem ! p) (h_sort first last' h cmp mem ! (p - h)))"
proof -
  from assms(3) have "first \<le> last'" by simp
  with h_sort_correct [OF assms(1,2,4), of first] assms(4) show ?thesis
    by (simp add: reorders_mset_range h_ordered_def)
qed

theorem h_sort_permutes_and_h_orders_witness:
  "strict_weak_order ((<) :: nat \<Rightarrow> nat \<Rightarrow> bool) \<and> (0 :: nat) < 4 \<and> (4 :: nat) < 9 - 0 \<and>
   9 \<le> length [9, 8, 7, 6, 5, 4, 3, 2, 1 :: nat] \<and>
   h_sort 0 9 4 (<) [9, 8, 7, 6, 5, 4, 3, 2, 1 :: nat] = [1, 4, 3, 2, 5, 8, 7, 6, 9] \<and>
   mset (range_of 0 9 (h_sort 0 9 4 (<) [9, 8, 7, 6, 5, 4, 3, 2, 1 :: nat])) =
   mset (range_of 0 9 [9, 8, 7, 6, 5, 4, 3, 2, 1 :: nat]) \<and>
   \<not> h_sort 0 9 4 (<) [9, 8, 7, 6, 5, 4, 3, 2, 1 :: nat] ! 4
     < h_sort 0 9 4 (<) [9, 8, 7, 6, 5, 4, 3, 2, 1 :: nat] ! (4 - 4) \<and>
   \<not> h_sort 0 9 4 (<) [9, 8, 7, 6, 5, 4, 3, 2, 1 :: nat] ! 8
     < h_sort 0 9 4 (<) [9, 8, 7, 6, 5, 4, 3, 2, 1 :: nat] ! (8 - 4)"
proof -
  have ev: "h_sort 0 9 4 (<) [9, 8, 7, 6, 5, 4, 3, 2, 1 :: nat] = [1, 4, 3, 2, 5, 8, 7, 6, 9]"
    by code_simp
  have hyps: "(0 :: nat) < 4" "(4 :: nat) < 9 - 0" "9 \<le> length [9, 8, 7, 6, 5, 4, 3, 2, 1 :: nat]"
    by simp_all
  note inst = h_sort_permutes_and_h_orders [OF swo_nat_less hyps]
  from inst have perm: "mset (range_of 0 9 (h_sort 0 9 4 (<) [9, 8, 7, 6, 5, 4, 3, 2, 1 :: nat])) =
        mset (range_of 0 9 [9, 8, 7, 6, 5, 4, 3, 2, 1 :: nat])"
    by (rule conjunct1)
  from inst have ord: "\<forall>p. 0 + 4 \<le> p \<and> p < 9 \<longrightarrow>
          \<not> h_sort 0 9 4 (<) [9, 8, 7, 6, 5, 4, 3, 2, 1 :: nat] ! p
            < h_sort 0 9 4 (<) [9, 8, 7, 6, 5, 4, 3, 2, 1 :: nat] ! (p - 4)"
    by (rule conjunct2)
  have "\<not> h_sort 0 9 4 (<) [9, 8, 7, 6, 5, 4, 3, 2, 1 :: nat] ! 4
          < h_sort 0 9 4 (<) [9, 8, 7, 6, 5, 4, 3, 2, 1 :: nat] ! (4 - 4)"
    and "\<not> h_sort 0 9 4 (<) [9, 8, 7, 6, 5, 4, 3, 2, 1 :: nat] ! 8
          < h_sort 0 9 4 (<) [9, 8, 7, 6, 5, 4, 3, 2, 1 :: nat] ! (8 - 4)"
    using ord [rule_format, of 4] ord [rule_format, of 8] by simp_all
  with perm ev swo_nat_less hyps show ?thesis by (intro conjI)
qed

end
